theory Spec2Isabelle
  imports Complex_Main "HOL-Library.Finite_Map" "HOL-Library.Word"
    "HOL-Library.Char_ord" "HOL-Library.List_Lexorder"
begin

section \<open>Hierarchical clustering of term vectors (package cluster)\<close>

text \<open>
  The theory embeds \<^verbatim>\<open>cluster.go\<close>: the term vectors (\<^verbatim>\<open>Vec\<close>), the greedy merge
  loop (\<^verbatim>\<open>Cluster\<close>) and the dendrogram interpreter (\<^verbatim>\<open>Interpret\<close>).

  Conventions of the embedding.
  \<^item> A Go run-time panic is a value of type \<open>panic\<close>; a function that can panic returns
    \<open>panic + 'a\<close>, with \<open>Inl\<close> for the panic.
  \<^item> Slice indices and lengths are natural numbers (Go produces them with \<^verbatim>\<open>range\<close> and
    \<^verbatim>\<open>len\<close>); where the source subtracts, the subtraction is done on \<open>int\<close>.
  \<^item> The token counts of a vector are Go \<^verbatim>\<open>int\<close>s, 64 bits wide as on the 64-bit
    platforms: a \<open>64 word\<close>, read as a signed number by \<open>sint\<close>. Sums and products of
    counts wrap around.
  \<^item> A \<^verbatim>\<open>float64\<close> is a real number or NaN. An operation on numbers gives the exact
    result rounded to the nearest number with a significand of 53 bits, ties to even
    (\<open>round64\<close>), as IEEE 754 has it; the square root of a negative number is NaN, an
    operation on NaN gives NaN, and a comparison with NaN is false. The range of the
    exponent is not bounded: infinities, underflow and the sign of zero are outside the
    model (no sum, product or quotient of the source reaches them on vectors whose
    lengths \<^verbatim>\<open>Renorm\<close> has computed).
  \<^item> A \<^verbatim>\<open>range\<close> over a map visits the keys in an order the run time chooses. The
    model visits them in increasing order (\<open>range_keys\<close>), which is one of these orders.
    The order matters only to the rounding of the sums of \<^verbatim>\<open>Renorm\<close> and \<^verbatim>\<open>Dot\<close>; a
    theorem that depends on such a sum has the hypothesis that it stays below \<open>2^53\<close>,
    where \<^verbatim>\<open>float64\<close> adds integers exactly in any order.
\<close>

datatype panic = MakesliceCapOutOfRange | IndexOutOfRange | SliceBoundsOutOfRange

subsection \<open>\<^verbatim>\<open>float64\<close>\<close>

text \<open>
  Rounding to the nearest integer, ties to even, and rounding of a real number to
  \<^verbatim>\<open>float64\<close>: with \<open>2^e \<le> |x| < 2^(e+1)\<close> the numbers of 53 significant bits around
  \<open>x\<close> are the multiples of \<open>2^(e-52)\<close>.
\<close>

definition round_half_even :: "real \<Rightarrow> int" where
  "round_half_even x =
     (let f = \<lfloor>x\<rfloor>; d = x - of_int f
      in if d < 1 / 2 then f else if 1 / 2 < d then f + 1 else if even f then f else f + 1)"

definition round64 :: "real \<Rightarrow> real" where
  "round64 x =
     (if x = 0 then 0
      else let e = \<lfloor>log 2 \<bar>x\<bar>\<rfloor>; q = 2 powr (of_int e - 52)
           in q * of_int (round_half_even (x / q)))"

datatype float64 = Finite real | NaN

text \<open>\<^verbatim>\<open>x + y\<close>, \<^verbatim>\<open>x * y\<close>, \<^verbatim>\<open>x / y\<close> and \<^verbatim>\<open>math.Sqrt(x)\<close>.\<close>

fun fadd :: "float64 \<Rightarrow> float64 \<Rightarrow> float64" where
  "fadd (Finite x) (Finite y) = Finite (round64 (x + y))"
| "fadd _ _ = NaN"

fun fmul :: "float64 \<Rightarrow> float64 \<Rightarrow> float64" where
  "fmul (Finite x) (Finite y) = Finite (round64 (x * y))"
| "fmul _ _ = NaN"

text \<open>
  A quotient by zero is an infinity or NaN in Go; the infinities are outside the model,
  which has NaN for it. \<^verbatim>\<open>Sim\<close> divides by the product of two lengths that are not zero,
  which is not zero here.
\<close>

fun fdiv :: "float64 \<Rightarrow> float64 \<Rightarrow> float64" where
  "fdiv (Finite x) (Finite y) = (if y = 0 then NaN else Finite (round64 (x / y)))"
| "fdiv _ _ = NaN"

fun fsqrt :: "float64 \<Rightarrow> float64" where
  "fsqrt (Finite x) = (if x < 0 then NaN else Finite (round64 (sqrt x)))"
| "fsqrt NaN = NaN"

text \<open>\<^verbatim>\<open>x > y\<close> and \<^verbatim>\<open>x <= y\<close>: false when an operand is NaN.\<close>

fun fgt :: "float64 \<Rightarrow> float64 \<Rightarrow> bool" where
  "fgt (Finite x) (Finite y) = (y < x)"
| "fgt _ _ = False"

fun fle :: "float64 \<Rightarrow> float64 \<Rightarrow> bool" where
  "fle (Finite x) (Finite y) = (x \<le> y)"
| "fle _ _ = False"

text \<open>The conversion \<^verbatim>\<open>float64(n)\<close> of an integer.\<close>

definition float64_of_int :: "int \<Rightarrow> float64" where
  "float64_of_int n = Finite (round64 (of_int n))"

subsection \<open>Term vectors\<close>

text \<open>
  \<^verbatim>\<open>type Vec struct { M map[string]int; Length float64 }\<close>. The map is a finite map;
  every vector owns its map, as the vectors \<^verbatim>\<open>NewVec\<close> builds do (a \<^verbatim>\<open>nil\<close> map, or one
  map shared by two vectors, is outside the model).
\<close>

record Vec =
  M :: "(string, 64 word) fmap"
  Length :: float64

text \<open>Reading a Go map: a key that is absent reads as the zero value.\<close>

definition get :: "(string, 64 word) fmap \<Rightarrow> string \<Rightarrow> 64 word" where
  "get m key = (case fmlookup m key of None \<Rightarrow> 0 | Some v \<Rightarrow> v)"

text \<open>The keys of a map in the order in which the model's \<^verbatim>\<open>range\<close> visits them.\<close>

definition range_keys :: "(string, 64 word) fmap \<Rightarrow> string list" where
  "range_keys m = sorted_list_of_fset (fmdom m)"

text \<open>
  \<^verbatim>\<open>Renorm\<close>: \<^verbatim>\<open>sum += float64(val * val)\<close> for every entry of the map, the product
  taken in \<^verbatim>\<open>int\<close>, and then \<^verbatim>\<open>a.Length = math.Sqrt(sum)\<close>. \<open>Renorm_in keys\<close> is the
  function when \<^verbatim>\<open>range\<close> visits the keys in the order \<open>keys\<close>.
\<close>

definition Renorm_in :: "string list \<Rightarrow> Vec \<Rightarrow> Vec" where
  "Renorm_in keys a =
     a\<lparr>Length :=
         fsqrt (foldl (\<lambda>sum key. fadd sum (float64_of_int (sint (get (M a) key * get (M a) key))))
                  (Finite 0) keys)\<rparr>"

definition Renorm :: "Vec \<Rightarrow> Vec" where
  "Renorm a = Renorm_in (range_keys (M a)) a"

text \<open>\<^verbatim>\<open>NewVec\<close>: \<^verbatim>\<open>v.M[key] += 1\<close> for every key of the list, then \<^verbatim>\<open>Renorm\<close>.\<close>

definition NewVec :: "string list \<Rightarrow> Vec" where
  "NewVec list =
     Renorm \<lparr>M = foldl (\<lambda>m key. fmupd key (get m key + 1) m) fmempty list, Length = Finite 0\<rparr>"

text \<open>
  \<^verbatim>\<open>Add\<close>: \<^verbatim>\<open>a.M[key] += b.M[key]\<close> for every key of \<^verbatim>\<open>b.M\<close>, then \<^verbatim>\<open>Renorm\<close>. One
  iteration reads and writes the count of its own key only, and every key of \<^verbatim>\<open>b.M\<close> is
  visited once: the map after the loop is \<^verbatim>\<open>a.M\<close> overwritten, at the keys of \<^verbatim>\<open>b.M\<close>,
  with the sums (\<open>Add_loop\<close> below is the loop itself, \<open>Add_loop_any_order\<close> relates
  the two).
\<close>

definition Add :: "Vec \<Rightarrow> Vec \<Rightarrow> Vec" where
  "Add a b = Renorm (a\<lparr>M := M a ++\<^sub>f fmmap_keys (\<lambda>key v. get (M a) key + v) (M b)\<rparr>)"

definition Add_loop ::
  "string list \<Rightarrow> (string, 64 word) fmap \<Rightarrow> (string, 64 word) fmap \<Rightarrow> (string, 64 word) fmap" where
  "Add_loop keys bM aM = foldl (\<lambda>m key. fmupd key (get m key + get bM key) m) aM keys"

text \<open>
  \<^verbatim>\<open>Dot\<close> iterates over the map with fewer keys:
  \<^verbatim>\<open>sum += float64(a.M[key] * b.M[key])\<close>, the product taken in \<^verbatim>\<open>int\<close>. \<open>Dot_in keys\<close>
  is the loop when \<^verbatim>\<open>range\<close> visits the keys in the order \<open>keys\<close>.
\<close>

definition Dot_in :: "string list \<Rightarrow> Vec \<Rightarrow> Vec \<Rightarrow> float64" where
  "Dot_in keys a b =
     foldl (\<lambda>sum key. fadd sum (float64_of_int (sint (get (M a) key * get (M b) key))))
       (Finite 0) keys"

definition Dot :: "Vec \<Rightarrow> Vec \<Rightarrow> float64" where
  "Dot a b =
     (let (a, b) = (if fcard (fmdom (M b)) < fcard (fmdom (M a)) then (b, a) else (a, b))
      in Dot_in (range_keys (M a)) a b)"

text \<open>
  \<^verbatim>\<open>Sim\<close>: 0 when \<^verbatim>\<open>a.Length == 0 || b.Length == 0\<close>, else
  \<^verbatim>\<open>a.Dot(b) / (a.Length * b.Length)\<close>.
\<close>

definition Sim :: "Vec \<Rightarrow> Vec \<Rightarrow> float64" where
  "Sim a b =
     (if Length a = Finite 0 \<or> Length b = Finite 0 then Finite 0
      else fdiv (Dot a b) (fmul (Length a) (Length b)))"

text \<open>
  The counts as numbers, and the sum of the squares of the counts of a vector: the
  square of its norm.
\<close>

definition sumsq :: "Vec \<Rightarrow> int" where
  "sumsq a = (\<Sum>key\<in>fmdom' (M a). (sint (get (M a) key))\<^sup>2)"

text \<open>
  The dot product of the counts as numbers, over the tokens that both vectors have, and
  the sum of the absolute values of its terms.
\<close>

definition dotsum :: "Vec \<Rightarrow> Vec \<Rightarrow> int" where
  "dotsum a b = (\<Sum>key\<in>fmdom' (M a) \<inter> fmdom' (M b). sint (get (M a) key) * sint (get (M b) key))"

definition dotabs :: "Vec \<Rightarrow> Vec \<Rightarrow> int" where
  "dotabs a b = (\<Sum>key\<in>fmdom' (M a) \<inter> fmdom' (M b). \<bar>sint (get (M a) key) * sint (get (M b) key)\<bar>)"

subsection \<open>The merge loop\<close>

text \<open>
  \<^verbatim>\<open>type simEntry struct { i, j int; val float64 }\<close>; the fields are \<open>sim_i\<close>, \<open>sim_j\<close>
  and \<open>sim_val\<close> here.
\<close>

record simEntry =
  sim_i :: nat
  sim_j :: nat
  sim_val :: float64

text \<open>
  \<^verbatim>\<open>type Merge struct { Left, Right int }\<close>. \<^verbatim>\<open>Cluster\<close> fills the fields with indices
  of \<^verbatim>\<open>vecs\<close>; a negative index in a sequence given to \<^verbatim>\<open>Interpret\<close> would panic there as
  an index past the end does.
\<close>

record Merge =
  Left :: nat
  Right :: nat

text \<open>
  The worker goroutines compute \<^verbatim>\<open>sims[n].val = vecs[sims[n].i].Sim(vecs[sims[n].j])\<close>
  for every slot \<^verbatim>\<open>n\<close> sent to the queue, and \<^verbatim>\<open>wg.Wait()\<close> returns when all of them
  are done. Between the first send and the return of \<^verbatim>\<open>wg.Wait()\<close> no vector is written,
  and a slot that was sent is not written by the driver again, so at the barrier the value
  of a slot that was sent is \<open>Sim\<close> of the two vectors as they are then. The embedding is
  this sequential result; the scheduling of the workers is not modelled.

  The initial similarity matrix: the entries \<open>(i, j)\<close> with \<open>j < i\<close>, in the order of the
  two nested loops. There are \<^verbatim>\<open>(len(vecs)-1)*len(vecs)/2\<close> of them
  (\<open>length_populate\<close>): they fill the slice \<^verbatim>\<open>sims\<close> exactly.
\<close>

definition populate :: "Vec list \<Rightarrow> simEntry list" where
  "populate vecs =
     concat (map (\<lambda>i. map (\<lambda>j. \<lparr>sim_i = i, sim_j = j, sim_val = Sim (vecs ! i) (vecs ! j)\<rparr>) [0..<i])
       [0..<length vecs])"

text \<open>
  The search for the most similar pair. It starts from \<^verbatim>\<open>sims[0]\<close>, which panics on an
  empty slice, and replaces the candidate by an entry when \<^verbatim>\<open>sim.val > maxsim.val\<close>.
\<close>

definition find_maxsim :: "simEntry list \<Rightarrow> panic + simEntry" where
  "find_maxsim sims =
     (case sims of
        [] \<Rightarrow> Inl IndexOutOfRange
      | s0 # _ \<Rightarrow>
          Inr (foldl (\<lambda>maxsim sim. if fgt (sim_val sim) (sim_val maxsim) then sim else maxsim)
                 s0 sims))"

text \<open>
  The update of the similarity matrix, in the order of the slice: an entry that refers to
  cluster \<^verbatim>\<open>maxsim.j\<close> is skipped, one that refers to cluster \<^verbatim>\<open>maxsim.i\<close> is stored with
  its value computed anew (by a worker, which indexes \<^verbatim>\<open>vecs\<close>), any other is stored as
  it is. The result is the list of the entries stored, which the source writes to the
  slots \<^verbatim>\<open>0, 1, ...\<close> of \<^verbatim>\<open>sims\<close>; the loop reads slot \<open>k\<close> before it writes any slot
  from \<open>k\<close> on.
\<close>

fun update_sims :: "Vec list \<Rightarrow> simEntry \<Rightarrow> simEntry list \<Rightarrow> panic + simEntry list" where
  "update_sims vecs maxsim [] = Inr []"
| "update_sims vecs maxsim (sim # rest) =
     (if sim_i sim = sim_j maxsim \<or> sim_j sim = sim_j maxsim then update_sims vecs maxsim rest
      else if sim_i sim = sim_i maxsim \<or> sim_j sim = sim_i maxsim then
        (if sim_i sim < length vecs \<and> sim_j sim < length vecs then
           (case update_sims vecs maxsim rest of
              Inl e \<Rightarrow> Inl e
            | Inr stored \<Rightarrow>
                Inr (\<lparr>sim_i = sim_i sim, sim_j = sim_j sim,
                      sim_val = Sim (vecs ! sim_i sim) (vecs ! sim_j sim)\<rparr> # stored))
         else Inl IndexOutOfRange)
      else
        (case update_sims vecs maxsim rest of
           Inl e \<Rightarrow> Inl e
         | Inr stored \<Rightarrow> Inr (sim # stored)))"

text \<open>
  One round of \<^verbatim>\<open>Cluster\<close>, on the state \<open>(vecs, sims, merges)\<close>. After the update the
  slice holds the stored entries followed by what was there before, and
  \<^verbatim>\<open>sims[:len(sims)-len(vecs)+round+1]\<close> cuts it; a negative bound panics (the bound is
  below \<^verbatim>\<open>len(sims)\<close> in a round the loop runs, where \<^verbatim>\<open>round+1 < len(vecs)\<close>).
\<close>

definition round_body ::
  "nat \<Rightarrow> Vec list \<times> simEntry list \<times> Merge list \<Rightarrow> panic + (Vec list \<times> simEntry list \<times> Merge list)" where
  "round_body rnd st =
     (case st of (vecs, sims, merges) \<Rightarrow>
        (case find_maxsim sims of
           Inl e \<Rightarrow> Inl e
         | Inr maxsim \<Rightarrow>
             if sim_i maxsim < length vecs \<and> sim_j maxsim < length vecs then
               let vecs' = vecs[sim_i maxsim := Add (vecs ! sim_i maxsim) (vecs ! sim_j maxsim)]
               in (case update_sims vecs' maxsim sims of
                     Inl e \<Rightarrow> Inl e
                   | Inr stored \<Rightarrow>
                       let bound = int (length sims) - int (length vecs) + int rnd + 1
                       in if bound < 0 then Inl SliceBoundsOutOfRange
                          else Inr (vecs',
                                    take (nat bound) (stored @ drop (length stored) sims),
                                    merges @ [\<lparr>Left = sim_i maxsim, Right = sim_j maxsim\<rparr>]))
             else Inl IndexOutOfRange))"

lemma round_body_length:
  "round_body rnd st = Inr st' \<Longrightarrow> length (fst st') = length (fst st)"
  by (auto simp: round_body_def Let_def split: prod.splits sum.splits if_splits)

text \<open>The loop \<^verbatim>\<open>for round := 0; round < len(vecs)-1; round++\<close> (\<open>rnd\<close> is \<^verbatim>\<open>round\<close>).\<close>

function rounds :: "nat \<Rightarrow> Vec list \<times> simEntry list \<times> Merge list \<Rightarrow> panic + Merge list" where
  "rounds rnd st =
     (if int rnd < int (length (fst st)) - 1 then
        (case round_body rnd st of
           Inl e \<Rightarrow> Inl e
         | Inr st' \<Rightarrow> rounds (rnd + 1) st')
      else Inr (snd (snd st)))"
  by pat_completeness auto
termination
  by (relation "measure (\<lambda>(rnd, st). length (fst st) - rnd)")
    (auto dest: round_body_length)

text \<open>
  \<^verbatim>\<open>Cluster\<close>. The matrix is populated first; then \<^verbatim>\<open>make([]Merge, 0, len(vecs)-1)\<close>
  panics when the capacity is negative.
\<close>

definition Cluster :: "Vec list \<Rightarrow> panic + Merge list" where
  "Cluster vecs =
     (let sims = populate vecs
      in if int (length vecs) - 1 < 0 then Inl MakesliceCapOutOfRange
         else rounds 0 (vecs, sims, []))"

text \<open>
  The state of \<^verbatim>\<open>Cluster\<close> at the round boundaries: after \<open>r\<close> rounds of the loop
  (\<open>state_after_is_loop_state\<close>: the loop continued from it returns what \<^verbatim>\<open>Cluster\<close>
  returns).
\<close>

fun state_after :: "Vec list \<Rightarrow> nat \<Rightarrow> panic + (Vec list \<times> simEntry list \<times> Merge list)" where
  "state_after vecs 0 = Inr (vecs, populate vecs, [])"
| "state_after vecs (Suc r) =
     (case state_after vecs r of
        Inl e \<Rightarrow> Inl e
      | Inr st \<Rightarrow> round_body r st)"

subsection \<open>Notions used to state the properties of the merge loop\<close>

text \<open>
  The pair of an entry; whether an entry refers to a cluster; what the update stores for
  an entry it keeps (the value computed anew when the entry refers to the surviving
  cluster, the entry itself otherwise); the vectors after the merge of a round.
\<close>

definition pair_of :: "simEntry \<Rightarrow> nat \<times> nat" where
  "pair_of s = (sim_i s, sim_j s)"

definition refers :: "simEntry \<Rightarrow> nat \<Rightarrow> bool" where
  "refers s x = (sim_i s = x \<or> sim_j s = x)"

definition recompute :: "Vec list \<Rightarrow> simEntry \<Rightarrow> simEntry \<Rightarrow> simEntry" where
  "recompute vecs maxsim s =
     (if refers s (sim_i maxsim) then s\<lparr>sim_val := Sim (vecs ! sim_i s) (vecs ! sim_j s)\<rparr> else s)"

definition absorb :: "Vec list \<Rightarrow> simEntry \<Rightarrow> Vec list" where
  "absorb vecs maxsim = vecs[sim_i maxsim := Add (vecs ! sim_i maxsim) (vecs ! sim_j maxsim)]"

text \<open>
  The active clusters after some merges are the indices that no merge has absorbed, and
  the matrix of a set of clusters has one pair \<open>(a, b)\<close>, \<open>b < a\<close>, for every two of them.
\<close>

definition active :: "nat \<Rightarrow> Merge list \<Rightarrow> nat set" where
  "active n merges = {0..<n} - Right ` set merges"

definition active_pairs :: "nat set \<Rightarrow> (nat \<times> nat) set" where
  "active_pairs A = {(a, b). a \<in> A \<and> b \<in> A \<and> b < a}"

text \<open>
  The invariant of the loop, at the boundary after \<open>r\<close> rounds on \<open>n\<close> vectors: the
  absorbed indices are distinct; the matrix holds every pair of active clusters once; the
  value of an entry is the similarity of the two vectors as they are; a merge records a
  larger surviving index.
\<close>

definition cluster_inv :: "nat \<Rightarrow> nat \<Rightarrow> Vec list \<times> simEntry list \<times> Merge list \<Rightarrow> bool" where
  "cluster_inv n r st =
     (case st of (vecs, sims, merges) \<Rightarrow>
        length vecs = n \<and> length merges = r
        \<and> distinct (map Right merges) \<and> Right ` set merges \<subseteq> {0..<n}
        \<and> distinct (map pair_of sims)
        \<and> pair_of ` set sims = active_pairs (active n merges)
        \<and> (\<forall>s\<in>set sims. sim_val s = Sim (vecs ! sim_i s) (vecs ! sim_j s))
        \<and> (\<forall>m\<in>set merges. Right m < Left m \<and> Left m < n))"

text \<open>
  The matrix holds one entry per unordered pair of the clusters \<open>A\<close>: every entry is a
  pair of two different clusters of \<open>A\<close>, and every two different clusters of \<open>A\<close> are
  the pair of exactly one slot.
\<close>

definition one_entry_per_pair :: "nat set \<Rightarrow> simEntry list \<Rightarrow> bool" where
  "one_entry_per_pair A sims =
     ((\<forall>s\<in>set sims. sim_i s \<in> A \<and> sim_j s \<in> A \<and> sim_i s \<noteq> sim_j s)
      \<and> (\<forall>a\<in>A. \<forall>b\<in>A. a \<noteq> b \<longrightarrow>
            (\<exists>!k. k < length sims \<and> {sim_i (sims ! k), sim_j (sims ! k)} = {a, b})))"

text \<open>
  Entry \<open>k\<close> of the matrix is its first maximum: no value is above its value, and every
  entry before it has a value below.
\<close>

definition first_maximum :: "simEntry list \<Rightarrow> nat \<Rightarrow> bool" where
  "first_maximum sims k =
     (k < length sims
      \<and> (\<forall>s\<in>set sims. fle (sim_val s) (sim_val (sims ! k)))
      \<and> (\<forall>l<k. fgt (sim_val (sims ! k)) (sim_val (sims ! l))))"

text \<open>
  The tokens of a vector are the keys of its map. \<open>disjoint_from r vecs\<close>: no two of the
  vectors from index \<open>r\<close> on share a token. \<open>pairs_from r n\<close> is the matrix of the
  clusters \<open>r, ..., n - 1\<close> in the order of the slice.
\<close>

definition tokens :: "Vec \<Rightarrow> string set" where
  "tokens v = fmdom' (M v)"



text \<open>An example: three vectors, the first and the last of the same token.\<close>

definition example_vecs :: "Vec list" where
  "example_vecs = [NewVec [''a''], NewVec [''b''], NewVec [''a'']]"

text \<open>
  The vector of one token with a given count, as \<^verbatim>\<open>Vec{M: map[string]int{key: n}}\<close>
  followed by \<^verbatim>\<open>Renorm\<close> builds it (and as \<^verbatim>\<open>NewVec\<close> builds it of a list that repeats
  the token \<open>n\<close> times). The square of the count \<open>3037000500\<close> is above \<open>2^63\<close>.
\<close>

definition count_vec :: "string \<Rightarrow> 64 word \<Rightarrow> Vec" where
  "count_vec key n = Renorm \<lparr>M = fmupd key n fmempty, Length = Finite 0\<rparr>"


subsection \<open>The dendrogram interpreter\<close>

text \<open>
  One iteration of the loop over the merges in \<^verbatim>\<open>Interpret\<close>. \<open>totalMerges\<close> is
  \<^verbatim>\<open>len(merges)\<close>. Indexing \<^verbatim>\<open>clusters\<close> past its end panics; both indices are read in
  every iteration (the left one by the test, the right one at the latest by the final
  \<^verbatim>\<open>append\<close>), so the iteration panics exactly when one of them is out of range.
  The slices appended to \<^verbatim>\<open>flagged\<close> are never written again (\<^verbatim>\<open>append\<close> only writes
  past their length), so lists as values model them.
\<close>

definition Interpret_step ::
  "nat \<Rightarrow> nat list list \<times> nat list list \<Rightarrow> Merge \<Rightarrow> panic + (nat list list \<times> nat list list)" where
  "Interpret_step totalMerges st merge =
     (case st of (clusters, flagged) \<Rightarrow>
        if Left merge < length clusters \<and> Right merge < length clusters then
          let l = clusters ! Left merge;
              r = clusters ! Right merge;
              flagged' =
                (if 3 < length l \<and> 3 < length r then
                   (flagged @ (if length l < totalMerges div 2 then [l] else []))
                     @ (if length r < totalMerges div 2 then [r] else [])
                 else flagged)
          in Inr (clusters[Left merge := l @ r], flagged')
        else Inl IndexOutOfRange)"

fun Interpret_loop ::
  "nat \<Rightarrow> Merge list \<Rightarrow> nat list list \<times> nat list list \<Rightarrow> panic + nat list list" where
  "Interpret_loop totalMerges [] st = Inr (snd st)"
| "Interpret_loop totalMerges (merge # rest) st =
     (case Interpret_step totalMerges st merge of
        Inl e \<Rightarrow> Inl e
      | Inr st' \<Rightarrow> Interpret_loop totalMerges rest st')"

definition Interpret :: "Merge list \<Rightarrow> panic + nat list list" where
  "Interpret merges =
     Interpret_loop (length merges) merges (map (\<lambda>i. [i]) [0..<length merges + 1], [])"

text \<open>
  A merge sequence is well indexed when every index it names is one of the
  \<^verbatim>\<open>len(merges)+1\<close> clusters \<^verbatim>\<open>Interpret\<close> allocates. The sequences \<^verbatim>\<open>Cluster\<close> returns
  are well indexed.
\<close>

definition well_indexed :: "Merge list \<Rightarrow> bool" where
  "well_indexed merges =
     list_all (\<lambda>m. Left m < length merges + 1 \<and> Right m < length merges + 1) merges"

text \<open>
  The interpreter as the specification words it: \<open>members ms k x\<close> is the member list of
  index \<open>x\<close> after the first \<open>k\<close> merges, and \<open>spec_flagged ms k\<close> is what merge \<open>k\<close>
  adds to the flagged lists.
\<close>

fun members :: "Merge list \<Rightarrow> nat \<Rightarrow> nat \<Rightarrow> nat list" where
  "members ms 0 x = [x]"
| "members ms (Suc k) x =
     (if x = Left (ms ! k) then members ms k (Left (ms ! k)) @ members ms k (Right (ms ! k))
      else members ms k x)"

definition spec_flagged :: "Merge list \<Rightarrow> nat \<Rightarrow> nat list list" where
  "spec_flagged ms k =
     (let l = members ms k (Left (ms ! k));
          r = members ms k (Right (ms ! k))
      in if 3 < length l \<and> 3 < length r then
           (if length l < length ms div 2 then [l] else [])
             @ (if length r < length ms div 2 then [r] else [])
         else [])"

section \<open>Rounding to \<^verbatim>\<open>float64\<close>\<close>

lemma round64_0 [simp]: "round64 0 = 0"
  by (simp add: round64_def)

lemma round_half_even_of_int [simp]: "round_half_even (of_int n) = n"
  by (simp add: round_half_even_def)

lemma round_half_even_eqI:
  assumes "of_int n - 1 / 2 < x" "x < of_int n + 1 / 2"
  shows "round_half_even x = n"
proof (cases "of_int n \<le> x")
  case True
  with assms have "\<lfloor>x\<rfloor> = n" by (intro floor_unique) auto
  with assms show ?thesis by (simp add: round_half_even_def)
next
  case False
  with assms have "\<lfloor>x\<rfloor> = n - 1" by (intro floor_unique) auto
  with assms False show ?thesis by (simp add: round_half_even_def)
qed

lemma round_half_even_error: "\<bar>of_int (round_half_even x) - x\<bar> \<le> 1 / 2"
  unfolding round_half_even_def Let_def
  by (auto simp: abs_if) linarith+

lemma round64_eqI:
  assumes "0 < x" "2 powr of_int e \<le> x" "x < 2 powr (of_int e + 1)"
    and "of_int n - 1 / 2 < x / 2 powr (of_int e - 52)"
    and "x / 2 powr (of_int e - 52) < of_int n + 1 / 2"
  shows "round64 x = 2 powr (of_int e - 52) * of_int n"
proof -
  have "\<lfloor>log 2 x\<rfloor> = e"
    using assms(1-3) by (simp add: floor_log_eq_powr_iff)
  moreover have "round_half_even (x / 2 powr (of_int e - 52)) = n"
    using assms(4,5) by (rule round_half_even_eqI)
  ultimately show ?thesis using assms(1) by (simp add: round64_def)
qed

lemma round64_1 [simp]: "round64 1 = 1"
  using round64_eqI[of 1 0 "2 ^ 52"] by (simp add: powr_minus)

lemma round64_sqrt3: "round64 (sqrt 3) = 7800463371553962 / 2 ^ 52"
proof -
  have lo: "(15600926743107923 / 2 ^ 53)\<^sup>2 < (3::real)" by (simp add: power2_eq_square)
  have hi: "(3::real) < (15600926743107925 / 2 ^ 53)\<^sup>2" by (simp add: power2_eq_square)
  from lo have 1: "15600926743107923 / 2 ^ 53 < sqrt 3" by (rule real_less_rsqrt)
  from hi have 2: "sqrt 3 < 15600926743107925 / 2 ^ 53" by (intro real_less_lsqrt) simp_all
  have "round64 (sqrt 3) = 2 powr (of_int 0 - 52) * of_int 7800463371553962"
  proof (rule round64_eqI)
    show "0 < sqrt (3::real)" by simp
    show "2 powr of_int 0 \<le> sqrt (3::real)" using 1 by simp
    show "sqrt (3::real) < 2 powr (of_int 0 + 1)" using 2 by simp
    show "of_int 7800463371553962 - 1 / 2 < sqrt 3 / 2 powr (of_int 0 - 52)"
      using 1 by (simp add: powr_minus field_simps)
    show "sqrt 3 / 2 powr (of_int 0 - 52) < of_int 7800463371553962 + 1 / 2"
      using 2 by (simp add: powr_minus field_simps)
  qed
  then show ?thesis by (simp add: powr_minus field_simps)
qed

lemma round64_2 [simp]: "round64 2 = 2"
  using round64_eqI[of 2 1 "2 ^ 52"] by (simp add: powr_minus)


lemma round64_of_int:
  assumes "\<bar>n\<bar> < 2 ^ 53"
  shows "round64 (of_int n) = of_int n"
proof (cases "n = 0")
  case True
  then show ?thesis by simp
next
  case False
  define x where "x = \<bar>real_of_int n\<bar>"
  define e where "e = \<lfloor>log 2 x\<rfloor>"
  have "1 \<le> \<bar>n\<bar>" using False by linarith
  then have "real_of_int 1 \<le> real_of_int \<bar>n\<bar>" by (simp only: of_int_le_iff)
  then have x1: "1 \<le> x" by (simp add: x_def)
  have "real_of_int \<bar>n\<bar> < real_of_int (2 ^ 53)" using assms by (simp only: of_int_less_iff)
  then have "x < 2 ^ 53" by (simp add: x_def)
  then have "log 2 x < 53" using less_powr_iff[of 2 x 53] x1 by simp
  then have "e \<le> 52" unfolding e_def by linarith
  define k where "k = nat (52 - e)"
  have q: "(2::real) powr (of_int e - 52) = 1 / 2 ^ k"
  proof -
    have "of_int e - 52 = - real k" using \<open>e \<le> 52\<close> by (simp add: k_def)
    then show ?thesis by (simp add: powr_minus powr_realpow inverse_eq_divide)
  qed
  have "real_of_int n / (1 / 2 ^ k) = of_int (n * 2 ^ k)" by simp
  then have "round_half_even (real_of_int n / (1 / 2 ^ k)) = n * 2 ^ k"
    by (simp only: round_half_even_of_int)
  then have "round64 (of_int n) = (1 / 2 ^ k) * of_int (n * 2 ^ k)"
    using \<open>n \<noteq> 0\<close> by (simp add: round64_def e_def[symmetric] x_def[symmetric] Let_def q)
  then show ?thesis by simp
qed

lemma round_half_even_nonneg: "0 \<le> x \<Longrightarrow> 0 \<le> round_half_even x"
  by (auto simp: round_half_even_def Let_def)

lemma round64_nonneg: "0 \<le> x \<Longrightarrow> 0 \<le> round64 x"
  by (simp add: round64_def Let_def round_half_even_nonneg)

lemma round64_error:
  "\<bar>round64 x - x\<bar> \<le> \<bar>x\<bar> / 2 ^ 53"
proof (cases "x = 0")
  case True
  then show ?thesis by simp
next
  case False
  define e where "e = \<lfloor>log 2 \<bar>x\<bar>\<rfloor>"
  define q :: real where "q = 2 powr (of_int e - 52)"
  have q: "0 < q" by (simp add: q_def)
  from False have "2 powr of_int e \<le> \<bar>x\<bar>"
    using floor_log_eq_powr_iff[of "\<bar>x\<bar>" 2 e] by (simp add: e_def)
  moreover have "2 powr of_int e = q * 2 ^ 52"
    by (simp add: q_def powr_diff)
  ultimately have lower: "q * 2 ^ 52 \<le> \<bar>x\<bar>" by simp
  have "round64 x = q * of_int (round_half_even (x / q))"
    using False by (simp add: round64_def e_def q_def Let_def)
  then have "round64 x - x = q * (of_int (round_half_even (x / q)) - x / q)"
    using q by (simp add: algebra_simps)
  then have "\<bar>round64 x - x\<bar> = q * \<bar>of_int (round_half_even (x / q)) - x / q\<bar>"
    using q by (simp add: abs_mult)
  also have "\<dots> \<le> q * (1 / 2)"
    using q round_half_even_error[of "x / q"] by (intro mult_left_mono) simp_all
  also have "\<dots> \<le> \<bar>x\<bar> / 2 ^ 53"
    using lower by (simp add: field_simps)
  finally show ?thesis .
qed

lemma round64_lower: "0 \<le> x \<Longrightarrow> x * (1 - 1 / 2 ^ 53) \<le> round64 x"
  using round64_error[of x] by (simp add: algebra_simps abs_if split: if_splits)

lemma round64_upper: "0 \<le> x \<Longrightarrow> round64 x \<le> x * (1 + 1 / 2 ^ 53)"
  using round64_error[of x] by (simp add: algebra_simps abs_if split: if_splits)

lemma round64_eq_0_iff [simp]: "round64 x = 0 \<longleftrightarrow> x = 0"
proof
  assume "round64 x = 0"
  with round64_error[of x] have "\<bar>x\<bar> \<le> \<bar>x\<bar> / 2 ^ 53" by simp
  then have "\<bar>x\<bar> * (2 ^ 53 - 1) \<le> 0" by (simp add: field_simps)
  then have "\<bar>x\<bar> \<le> 0" by (simp add: mult_le_0_iff)
  then show "x = 0" by simp
qed simp

lemma round64_pos: "0 < x \<Longrightarrow> 0 < round64 x"
  using round64_nonneg[of x] round64_eq_0_iff[of x] by (simp add: less_le del: round64_eq_0_iff)


section \<open>Comparisons and sums in \<^verbatim>\<open>float64\<close>\<close>

lemma fle_refl: "a \<noteq> NaN \<Longrightarrow> fle a a"
  by (cases a) simp_all

lemma not_fgt_fle: "a \<noteq> NaN \<Longrightarrow> b \<noteq> NaN \<Longrightarrow> \<not> fgt a b \<Longrightarrow> fle a b"
  by (cases a; cases b) simp_all

lemma fgt_fle: "fgt a b \<Longrightarrow> fle b a"
  by (cases a; cases b) simp_all

lemma fle_trans: "fle a b \<Longrightarrow> fle b c \<Longrightarrow> fle a c"
  by (cases a; cases b; cases c) simp_all

lemma fgt_fle_trans: "fgt c b \<Longrightarrow> fle a b \<Longrightarrow> fgt c a"
  by (cases a; cases b; cases c) simp_all

lemma fgt_irrefl [simp]: "\<not> fgt a a"
  by (cases a) simp_all

lemma fgt_NaN [simp]: "\<not> fgt a NaN" "\<not> fgt NaN a"
  by (cases a; simp)+

lemma fle_NaN [simp]: "\<not> fle a NaN" "\<not> fle NaN a"
  by (cases a; simp)+

text \<open>Below \<open>2^53\<close> a sum of integers is exact in \<^verbatim>\<open>float64\<close>, in any order.\<close>

lemma float_sum_exact:
  "\<bar>s\<bar> + (\<Sum>key\<leftarrow>keys. \<bar>f key\<bar>) < 2 ^ 53 \<Longrightarrow>
   foldl (\<lambda>sum key. fadd sum (float64_of_int (f key))) (Finite (of_int s)) keys
     = Finite (of_int (s + (\<Sum>key\<leftarrow>keys. f key)))"
proof (induction keys arbitrary: s)
  case Nil
  show ?case by simp
next
  case (Cons key keys)
  have nonneg: "0 \<le> (\<Sum>key\<leftarrow>keys. \<bar>f key\<bar>)" by (rule sum_list_nonneg) auto
  from Cons.prems nonneg have 1: "\<bar>f key\<bar> < 2 ^ 53" and 2: "\<bar>s + f key\<bar> < 2 ^ 53"
    by simp_all
  have "fadd (Finite (of_int s)) (float64_of_int (f key)) = Finite (of_int (s + f key))"
    using round64_of_int[OF 1] round64_of_int[OF 2] by (simp add: float64_of_int_def)
  moreover have "\<bar>s + f key\<bar> + (\<Sum>key\<leftarrow>keys. \<bar>f key\<bar>) < 2 ^ 53"
    using Cons.prems by simp
  ultimately show ?case using Cons.IH[of "s + f key"] by (simp add: add.assoc)
qed

lemma float_sum_keys_exact:
  assumes "distinct keys" and "(\<Sum>key\<in>set keys. \<bar>f key\<bar>) < 2 ^ 53"
  shows "foldl (\<lambda>sum key. fadd sum (float64_of_int (f key))) (Finite 0) keys
     = Finite (of_int (\<Sum>key\<in>set keys. f key))"
proof -
  have "\<bar>0\<bar> + (\<Sum>key\<leftarrow>keys. \<bar>f key\<bar>) < 2 ^ 53"
    using assms by (simp add: sum_list_distinct_conv_sum_set)
  from float_sum_exact[OF this] assms(1) show ?thesis
    by (simp add: sum_list_distinct_conv_sum_set)
qed

lemma float_sum_zero:
  "\<forall>key\<in>set keys. g key = Finite 0 \<Longrightarrow>
   foldl (\<lambda>sum key. fadd sum (g key)) (Finite 0) keys = Finite 0"
  by (induction keys) simp_all


lemma sint_mult_exact:
  fixes a b :: "64 word"
  assumes "\<bar>sint a * sint b\<bar> < 2 ^ 63"
  shows "sint (a * b) = sint a * sint b"
proof -
  have "- (2 ^ 63) \<le> sint a * sint b" "sint a * sint b < 2 ^ 63" using assms by linarith+
  then show ?thesis by (simp add: sint_word_ariths signed_take_bit_int_eq_self)
qed


section \<open>Properties of the merge loop\<close>

lemma update_sims_eq:
  "\<forall>s\<in>set sims. sim_i s < length vecs \<and> sim_j s < length vecs \<Longrightarrow>
   update_sims vecs maxsim sims
     = Inr (map (recompute vecs maxsim) (filter (\<lambda>s. \<not> refers s (sim_j maxsim)) sims))"
  by (induction sims) (simp_all add: refers_def recompute_def)

lemma foldl_maxsim_mem:
  "foldl (\<lambda>maxsim sim. if fgt (sim_val sim) (sim_val maxsim) then sim else maxsim) c xs
     \<in> set (c # xs)"
proof (induction xs arbitrary: c)
  case Nil
  show ?case by simp
next
  case (Cons x xs)
  from Cons.IH[of x] Cons.IH[of c] show ?case by auto
qed

text \<open>The search returns an entry of the slice.\<close>

lemma find_maxsim_mem:
  assumes "sims \<noteq> []"
  shows "\<exists>k<length sims. find_maxsim sims = Inr (sims ! k)"
proof -
  from assms obtain s0 rest where sims: "sims = s0 # rest" by (cases sims) auto
  let ?f = "\<lambda>maxsim sim. if fgt (sim_val sim) (sim_val maxsim) then sim else maxsim"
  have "foldl ?f s0 rest \<in> set sims"
    using foldl_maxsim_mem[of s0 rest] by (simp add: sims)
  then obtain k where "k < length sims" "sims ! k = foldl ?f s0 rest"
    by (auto simp: in_set_conv_nth)
  moreover have "find_maxsim sims = Inr (foldl ?f s0 rest)"
    by (simp add: find_maxsim_def sims)
  ultimately show ?thesis by auto
qed

lemma foldl_maxsim:
  fixes pre :: "simEntry list"
  defines "f \<equiv> \<lambda>maxsim sim. if fgt (sim_val sim) (sim_val maxsim) then sim else maxsim"
  assumes "k < length pre" "c = pre ! k" "\<forall>s\<in>set (pre @ xs). sim_val s \<noteq> NaN"
    "\<forall>s\<in>set pre. fle (sim_val s) (sim_val c)" "\<forall>l<k. fgt (sim_val c) (sim_val (pre ! l))"
  shows "\<exists>k'<length (pre @ xs). foldl f c xs = (pre @ xs) ! k'
            \<and> (\<forall>s\<in>set (pre @ xs). fle (sim_val s) (sim_val ((pre @ xs) ! k')))
            \<and> (\<forall>l<k'. fgt (sim_val ((pre @ xs) ! k')) (sim_val ((pre @ xs) ! l)))"
  using assms(2-)
proof (induction xs arbitrary: pre k c)
  case Nil
  then show ?case by auto
next
  case (Cons x xs)
  let ?pre = "pre @ [x]"
  have nan: "\<forall>s\<in>set (?pre @ xs). sim_val s \<noteq> NaN" using Cons.prems(3) by simp
  have x: "sim_val x \<noteq> NaN" using Cons.prems(3) by simp
  have c: "sim_val c \<noteq> NaN" using Cons.prems(1,2,3) by simp
  show ?case
  proof (cases "fgt (sim_val x) (sim_val c)")
    case True
    have "\<exists>k'<length (?pre @ xs). foldl f x xs = (?pre @ xs) ! k'
            \<and> (\<forall>s\<in>set (?pre @ xs). fle (sim_val s) (sim_val ((?pre @ xs) ! k')))
            \<and> (\<forall>l<k'. fgt (sim_val ((?pre @ xs) ! k')) (sim_val ((?pre @ xs) ! l)))"
    proof (rule Cons.IH[of "length pre"])
      show "\<forall>s\<in>set ?pre. fle (sim_val s) (sim_val x)"
        using Cons.prems(4) fgt_fle[OF True] fle_refl[OF x] by (auto intro: fle_trans)
      show "\<forall>l<length pre. fgt (sim_val x) (sim_val (?pre ! l))"
        using Cons.prems(4) True by (auto simp: nth_append intro: fgt_fle_trans)
    qed (simp_all add: nan del: set_append)
    with True show ?thesis by (simp add: f_def)
  next
    case False
    have "\<exists>k'<length (?pre @ xs). foldl f c xs = (?pre @ xs) ! k'
            \<and> (\<forall>s\<in>set (?pre @ xs). fle (sim_val s) (sim_val ((?pre @ xs) ! k')))
            \<and> (\<forall>l<k'. fgt (sim_val ((?pre @ xs) ! k')) (sim_val ((?pre @ xs) ! l)))"
    proof (rule Cons.IH[of k])
      show "k < length ?pre" using Cons.prems(1) by simp
      show "c = ?pre ! k" using Cons.prems(1,2) by (simp add: nth_append)
      show "\<forall>s\<in>set ?pre. fle (sim_val s) (sim_val c)"
        using Cons.prems(4) not_fgt_fle[OF x c False] by auto
      show "\<forall>l<k. fgt (sim_val c) (sim_val (?pre ! l))"
        using Cons.prems(1,5) by (simp add: nth_append)
    qed (rule nan)
    with False show ?thesis by (simp add: f_def)
  qed
qed

text \<open>
  When no value is NaN the search returns the first maximum. (With a NaN among the values
  it may return another entry: a comparison with NaN is false.)
\<close>

lemma find_maxsim_first_max:
  assumes "sims \<noteq> []" and "\<forall>s\<in>set sims. sim_val s \<noteq> NaN"
  shows "\<exists>k. find_maxsim sims = Inr (sims ! k) \<and> first_maximum sims k"
proof -
  from assms obtain s0 rest where sims: "sims = s0 # rest" by (cases sims) auto
  let ?f = "\<lambda>maxsim sim. if fgt (sim_val sim) (sim_val maxsim) then sim else maxsim"
  have "find_maxsim sims = Inr (foldl ?f s0 rest)"
    by (simp add: find_maxsim_def sims)
  moreover have "sim_val s0 \<noteq> NaN" using assms(2) by (simp add: sims)
  then have "fle (sim_val s0) (sim_val s0)" by (rule fle_refl)
  with foldl_maxsim[of 0 "[s0]" s0 rest] assms(2)
  have "\<exists>k'<length sims. foldl ?f s0 rest = sims ! k'
            \<and> (\<forall>s\<in>set sims. fle (sim_val s) (sim_val (sims ! k')))
            \<and> (\<forall>l<k'. fgt (sim_val (sims ! k')) (sim_val (sims ! l)))"
    by (simp add: sims)
  ultimately show ?thesis by (auto simp: first_maximum_def)
qed

text \<open>The entry that the search returns: an entry of the slice, the first maximum when
  no value is NaN.\<close>

lemma find_maxsim_selects:
  assumes "sims \<noteq> []"
  shows "\<exists>k<length sims. find_maxsim sims = Inr (sims ! k)
           \<and> ((\<forall>s\<in>set sims. sim_val s \<noteq> NaN) \<longrightarrow> first_maximum sims k)"
proof (cases "\<forall>s\<in>set sims. sim_val s \<noteq> NaN")
  case True
  from find_maxsim_first_max[OF assms True] show ?thesis
    by (auto simp: first_maximum_def)
next
  case False
  with find_maxsim_mem[OF assms] show ?thesis by auto
qed

subsection \<open>The initial matrix\<close>

lemma pairs_populate:
  "map pair_of (populate vecs) = concat (map (\<lambda>i. map (Pair i) [0..<i]) [0..<length vecs])"
  by (simp add: populate_def map_concat comp_def pair_of_def)

lemma set_pairs_upto:
  "set (concat (map (\<lambda>i. map (Pair i) [0..<i]) [0..<n])) = active_pairs {0..<n}"
  by (auto simp: active_pairs_def)

lemma distinct_pairs_upto:
  "distinct (concat (map (\<lambda>i. map (Pair i) [0..<i]) [0..<n]))"
proof (induction n)
  case 0
  show ?case by simp
next
  case (Suc n)
  have "distinct (map (Pair n) [0..<n])"
    by (simp add: distinct_map inj_on_def)
  moreover have "set (concat (map (\<lambda>i. map (Pair i) [0..<i]) [0..<n])) \<inter> set (map (Pair n) [0..<n]) = {}"
    by auto
  ultimately show ?case using Suc by simp
qed

lemma length_pairs_upto:
  "length (concat (map (\<lambda>i. map (Pair i) [0..<i]) [0..<n])) = (n - 1) * n div 2"
proof (induction n)
  case 0
  show ?case by simp
next
  case (Suc n)
  have "(n - 1) * n div 2 + n = n * Suc n div 2"
    by (cases n) (simp_all add: algebra_simps)
  with Suc show ?case by (simp add: mult.commute)
qed

lemma length_populate: "length (populate vecs) = (length vecs - 1) * length vecs div 2"
  using length_pairs_upto[of "length vecs"] pairs_populate[of vecs]
  by (metis length_map)

lemma populate_coherent:
  "\<forall>s\<in>set (populate vecs). sim_val s = Sim (vecs ! sim_i s) (vecs ! sim_j s)"
  by (auto simp: populate_def)

lemma cluster_inv_initial: "cluster_inv (length vecs) 0 (vecs, populate vecs, [])"
proof -
  have "pair_of ` set (populate vecs) = active_pairs {0..<length vecs}"
    using set_pairs_upto[of "length vecs"] pairs_populate[of vecs]
    by (metis set_map)
  moreover have "distinct (map pair_of (populate vecs))"
    by (simp add: pairs_populate distinct_pairs_upto)
  ultimately show ?thesis
    using populate_coherent[of vecs] by (simp add: cluster_inv_def active_def)
qed

lemma card_active:
  assumes "distinct (map Right merges)" "Right ` set merges \<subseteq> {0..<n}"
  shows "card (active n merges) = n - length merges"
proof -
  have "card (Right ` set merges) = length merges"
    using assms(1) distinct_card[of "map Right merges"] by simp
  moreover have "card ({0..<n} - Right ` set merges) = card {0..<n} - card (Right ` set merges)"
    using assms(2) by (intro card_Diff_subset) (auto intro: finite_subset)
  ultimately show ?thesis by (simp add: active_def)
qed

lemma finite_active: "finite (active n merges)"
  by (simp add: active_def)

text \<open>Every active index but \<open>x\<close> has exactly one entry with \<open>x\<close>.\<close>

lemma length_referring:
  assumes dist: "distinct (map pair_of sims)"
    and pairs: "pair_of ` set sims = active_pairs A"
    and fin: "finite A" and x: "x \<in> A"
  shows "length (filter (\<lambda>s. refers s x) sims) = card A - 1"
proof -
  let ?F = "filter (\<lambda>s. refers s x) sims"
  let ?g = "\<lambda>y. if y < x then (x, y) else (y, x)"
  have "distinct (map pair_of ?F)"
    using dist by (rule distinct_map_filter)
  then have "length ?F = card (pair_of ` set ?F)"
    using distinct_card[of "map pair_of ?F"] by simp
  also have "pair_of ` set ?F = {p \<in> active_pairs A. fst p = x \<or> snd p = x}"
    using pairs by (auto simp: refers_def pair_of_def image_iff) force+
  also have "\<dots> = ?g ` (A - {x})"
    using x by (auto simp: active_pairs_def image_iff split: if_splits)
  also have "card \<dots> = card (A - {x})"
    by (intro card_image inj_onI) (auto split: if_splits)
  also have "\<dots> = card A - 1"
    using fin x by simp
  finally show ?thesis .
qed

lemma active_pairs_remove:
  "{p \<in> active_pairs A. fst p \<noteq> x \<and> snd p \<noteq> x} = active_pairs (A - {x})"
  by (auto simp: active_pairs_def)

lemma pair_of_recompute [simp]: "pair_of (recompute vecs maxsim s) = pair_of s"
  by (simp add: recompute_def pair_of_def)

lemma active_snoc:
  "active n (merges @ [m]) = active n merges - {Right m}"
  by (auto simp: active_def)

text \<open>One round, from a state that satisfies the invariant.\<close>

lemma round_body_inv:
  assumes inv: "cluster_inv n r (vecs, sims, merges)" and r: "Suc r < n"
  shows "\<exists>k maxsim. k < length sims \<and> maxsim = sims ! k
           \<and> find_maxsim sims = Inr maxsim
           \<and> ((\<forall>s\<in>set sims. sim_val s \<noteq> NaN) \<longrightarrow> first_maximum sims k)
           \<and> round_body r (vecs, sims, merges)
               = Inr (absorb vecs maxsim,
                      map (recompute (absorb vecs maxsim) maxsim)
                        (filter (\<lambda>s. \<not> refers s (sim_j maxsim)) sims),
                      merges @ [\<lparr>Left = sim_i maxsim, Right = sim_j maxsim\<rparr>])
           \<and> cluster_inv n (Suc r)
                (absorb vecs maxsim,
                 map (recompute (absorb vecs maxsim) maxsim)
                   (filter (\<lambda>s. \<not> refers s (sim_j maxsim)) sims),
                 merges @ [\<lparr>Left = sim_i maxsim, Right = sim_j maxsim\<rparr>])"
proof -
  let ?A = "active n merges"
  from inv have len: "length vecs = n" "length merges = r"
    and dR: "distinct (map Right merges)" and sR: "Right ` set merges \<subseteq> {0..<n}"
    and dP: "distinct (map pair_of sims)" and sP: "pair_of ` set sims = active_pairs ?A"
    and coh: "\<forall>s\<in>set sims. sim_val s = Sim (vecs ! sim_i s) (vecs ! sim_j s)"
    and ord: "\<forall>m\<in>set merges. Right m < Left m \<and> Left m < n"
    by (simp_all add: cluster_inv_def)
  have cardA: "card ?A = n - r"
    using card_active[OF dR sR] len by simp
  have Asub: "?A \<subseteq> {0..<n}" by (auto simp: active_def)
  have rng: "\<forall>s\<in>set sims. sim_j s < sim_i s \<and> sim_i s < n \<and> sim_j s < n
               \<and> sim_i s \<in> ?A \<and> sim_j s \<in> ?A"
  proof
    fix s assume "s \<in> set sims"
    then have "pair_of s \<in> active_pairs ?A" using sP by blast
    then show "sim_j s < sim_i s \<and> sim_i s < n \<and> sim_j s < n \<and> sim_i s \<in> ?A \<and> sim_j s \<in> ?A"
      using Asub by (auto simp: active_pairs_def pair_of_def)
  qed
  \<comment> \<open>two active clusters are left, so the matrix is not empty\<close>
  have "2 \<le> card ?A" using cardA r by simp
  then obtain a b where ab: "a \<in> ?A" "b \<in> ?A" "b < a"
  proof -
    assume thesis: "\<And>a b. a \<in> ?A \<Longrightarrow> b \<in> ?A \<Longrightarrow> b < a \<Longrightarrow> thesis"
    from \<open>2 \<le> card ?A\<close> obtain x y where "x \<in> ?A" "y \<in> ?A" "x \<noteq> y"
      by (metis card_le_Suc0_iff_eq finite_active not_less_eq_eq numeral_2_eq_2)
    then show thesis using thesis[of x y] thesis[of y x] by (cases "x < y") auto
  qed
  then have "(a, b) \<in> pair_of ` set sims" using sP by (simp add: active_pairs_def)
  then have ne: "sims \<noteq> []" by auto
  from find_maxsim_selects[OF ne] obtain k where k: "k < length sims"
    and fm: "find_maxsim sims = Inr (sims ! k)"
    and mx: "(\<forall>s\<in>set sims. sim_val s \<noteq> NaN) \<longrightarrow> first_maximum sims k"
    by blast
  define maxsim where "maxsim = sims ! k"
  let ?i = "sim_i maxsim" and ?j = "sim_j maxsim"
  let ?vecs' = "absorb vecs maxsim"
  let ?kept = "filter (\<lambda>s. \<not> refers s ?j) sims"
  let ?sims' = "map (recompute ?vecs' maxsim) ?kept"
  let ?merges' = "merges @ [\<lparr>Left = ?i, Right = ?j\<rparr>]"
  have mem: "maxsim \<in> set sims" using k by (simp add: maxsim_def)
  with rng have ij: "?j < ?i" "?i < n" "?j < n" "?i \<in> ?A" "?j \<in> ?A" by simp_all
  have len': "length ?vecs' = n" by (simp add: absorb_def len)
  \<comment> \<open>the update stores the entries kept, and the cut keeps exactly them\<close>
  have upd: "update_sims ?vecs' maxsim sims = Inr ?sims'"
    using rng by (intro update_sims_eq) (simp add: len')
  have "length (filter (\<lambda>s. refers s ?j) sims) = card ?A - 1"
    using dP sP finite_active ij(5) by (rule length_referring)
  moreover have "length sims = length (filter (\<lambda>s. refers s ?j) sims) + length ?kept"
    using sum_length_filter_compl[of "\<lambda>s. refers s ?j" sims] by simp
  ultimately have lk: "length sims = (n - r - 1) + length ?kept"
    using cardA by simp
  then have bound: "int (length sims) - int n + int r + 1 = int (length ?kept)"
    using r by simp
  have step: "round_body r (vecs, sims, merges) = Inr (?vecs', ?sims', ?merges')"
    using fm ij(2,3) upd bound
    by (simp add: round_body_def len maxsim_def[symmetric] absorb_def[symmetric] Let_def)
  \<comment> \<open>the invariant after the round\<close>
  have A': "active n ?merges' = ?A - {?j}" by (simp add: active_snoc)
  have "?j \<notin> Right ` set merges" using ij(5) by (simp add: active_def)
  then have dR': "distinct (map Right ?merges')" using dR by simp
  have sR': "Right ` set ?merges' \<subseteq> {0..<n}" using sR ij(3) by simp
  have "map pair_of ?sims' = map pair_of ?kept"
    by simp
  also have "\<dots> = filter (\<lambda>p. fst p \<noteq> ?j \<and> snd p \<noteq> ?j) (map pair_of sims)"
    by (simp add: filter_map comp_def refers_def pair_of_def)
  finally have pk:
    "map pair_of ?sims' = filter (\<lambda>p. fst p \<noteq> ?j \<and> snd p \<noteq> ?j) (map pair_of sims)" .
  have dP': "distinct (map pair_of ?sims')"
    unfolding pk using dP by simp
  have "set (map pair_of ?sims') = {p \<in> active_pairs ?A. fst p \<noteq> ?j \<and> snd p \<noteq> ?j}"
    unfolding pk using sP by auto
  then have "set (map pair_of ?sims') = active_pairs (active n ?merges')"
    unfolding A' active_pairs_remove .
  then have sP': "pair_of ` set ?sims' = active_pairs (active n ?merges')"
    unfolding set_map .
  have coh': "\<forall>s\<in>set ?sims'. sim_val s = Sim (?vecs' ! sim_i s) (?vecs' ! sim_j s)"
  proof
    fix s' assume "s' \<in> set ?sims'"
    then obtain s where s: "s \<in> set sims" "s' = recompute ?vecs' maxsim s" by auto
    show "sim_val s' = Sim (?vecs' ! sim_i s') (?vecs' ! sim_j s')"
    proof (cases "refers s ?i")
      case True
      then show ?thesis by (simp add: s(2) recompute_def)
    next
      case False
      then have "?vecs' ! sim_i s = vecs ! sim_i s" "?vecs' ! sim_j s = vecs ! sim_j s"
        by (auto simp: refers_def absorb_def)
      with False coh s show ?thesis by (simp add: recompute_def)
    qed
  qed
  have ord': "\<forall>m\<in>set ?merges'. Right m < Left m \<and> Left m < n"
    using ord ij by simp
  have inv': "cluster_inv n (Suc r) (?vecs', ?sims', ?merges')"
    unfolding cluster_inv_def prod.case
    using len' len(2) dR' sR' dP' sP' coh' ord' by simp
  from k fm mx step inv' show ?thesis
    unfolding maxsim_def by blast
qed

lemma state_after_inv:
  "r = 0 \<or> r < length vecs0 \<Longrightarrow>
   \<exists>st. state_after vecs0 r = Inr st \<and> cluster_inv (length vecs0) r st"
proof (induction r)
  case 0
  show ?case by (simp add: cluster_inv_initial)
next
  case (Suc r)
  then have r: "Suc r < length vecs0" by simp
  with Suc.IH obtain vecs sims merges where
    st: "state_after vecs0 r = Inr (vecs, sims, merges)"
    and inv: "cluster_inv (length vecs0) r (vecs, sims, merges)"
    by (metis Suc_lessD prod_cases3)
  from round_body_inv[OF inv r] st show ?case by auto
qed

lemma rounds_state_after:
  assumes "state_after vecs0 r = Inr st" and "cluster_inv (length vecs0) r st"
    and "Suc r \<le> length vecs0"
  shows "\<exists>st'. state_after vecs0 (length vecs0 - 1) = Inr st'
           \<and> cluster_inv (length vecs0) (length vecs0 - 1) st'
           \<and> rounds r st = Inr (snd (snd st'))"
  using assms
proof (induction "length vecs0 - 1 - r" arbitrary: r st)
  case 0
  then have r: "r = length vecs0 - 1" by simp
  obtain vecs sims merges where st: "st = (vecs, sims, merges)" by (cases st)
  from "0.prems"(2) have "length vecs = length vecs0" by (simp add: st cluster_inv_def)
  then have "\<not> int r < int (length (fst st)) - 1"
    using r "0.prems"(3) by (simp add: st)
  then have "rounds r st = Inr (snd (snd st))"
    by (subst rounds.simps) simp
  with "0.prems" r show ?case by auto
next
  case (Suc d)
  then have r: "Suc r < length vecs0" by simp
  obtain vecs sims merges where st: "st = (vecs, sims, merges)" by (cases st)
  from Suc.prems(2) have len: "length vecs = length vecs0" by (simp add: st cluster_inv_def)
  from round_body_inv[OF Suc.prems(2)[unfolded st] r] obtain st1 where
    rb: "round_body r st = Inr st1" and inv1: "cluster_inv (length vecs0) (Suc r) st1"
    unfolding st by blast
  have sa: "state_after vecs0 (Suc r) = Inr st1"
    using Suc.prems(1) rb by simp
  have "d = length vecs0 - 1 - Suc r" using Suc.hyps(2) by simp
  from Suc.hyps(1)[OF this sa inv1] r obtain st' where
    st': "state_after vecs0 (length vecs0 - 1) = Inr st'"
      "cluster_inv (length vecs0) (length vecs0 - 1) st'"
      "rounds (Suc r) st1 = Inr (snd (snd st'))"
    by auto
  have "int r < int (length (fst st)) - 1"
    using r len by (simp add: st)
  then have "rounds r st = rounds (Suc r) st1"
    using rb by (subst rounds.simps) simp
  with st' show ?case by auto
qed

lemma Cluster_empty: "Cluster [] = Inl MakesliceCapOutOfRange"
  by (simp add: Cluster_def)

lemma Cluster_state_after:
  assumes "1 \<le> length vecs0"
  shows "\<exists>vecs sims merges.
           state_after vecs0 (length vecs0 - 1) = Inr (vecs, sims, merges)
           \<and> cluster_inv (length vecs0) (length vecs0 - 1) (vecs, sims, merges)
           \<and> Cluster vecs0 = Inr merges"
proof -
  have "state_after vecs0 0 = Inr (vecs0, populate vecs0, [])" by simp
  from rounds_state_after[OF this cluster_inv_initial] assms
  obtain st' where st': "state_after vecs0 (length vecs0 - 1) = Inr st'"
      "cluster_inv (length vecs0) (length vecs0 - 1) st'"
      "rounds 0 (vecs0, populate vecs0, []) = Inr (snd (snd st'))"
    by auto
  moreover have "Cluster vecs0 = rounds 0 (vecs0, populate vecs0, [])"
    using assms by (simp add: Cluster_def)
  ultimately show ?thesis by (cases st') auto
qed

text \<open>The loop, continued from the state after \<open>r\<close> rounds, returns what \<^verbatim>\<open>Cluster\<close> returns.\<close>

lemma state_after_is_loop_state:
  assumes "r = 0 \<or> r < length vecs0" and "1 \<le> length vecs0"
    and st: "state_after vecs0 r = Inr st"
  shows "rounds r st = Cluster vecs0"
proof -
  from state_after_inv[OF assms(1)] st have inv: "cluster_inv (length vecs0) r st" by simp
  from assms(1,2) have "Suc r \<le> length vecs0" by linarith
  from rounds_state_after[OF st inv this] obtain st' where
    "state_after vecs0 (length vecs0 - 1) = Inr st'" "rounds r st = Inr (snd (snd st'))"
    by blast
  moreover from Cluster_state_after[OF assms(2)] obtain vecs sims merges where
    "state_after vecs0 (length vecs0 - 1) = Inr (vecs, sims, merges)" "Cluster vecs0 = Inr merges"
    by blast
  ultimately show ?thesis by simp
qed

lemma count_list_distinct:
  "distinct xs \<Longrightarrow> x \<in> set xs \<Longrightarrow> count_list xs x = 1"
  by (induction xs) auto

text \<open>On one vector or more the loop runs to its end.\<close>

lemma Cluster_complete:
  assumes "1 \<le> length vecs"
  shows "\<exists>ms. Cluster vecs = Inr ms \<and> length ms = length vecs - 1
           \<and> (\<exists>survivor<length vecs. count_list (map Right ms) survivor = 0
                 \<and> (\<forall>x<length vecs. x \<noteq> survivor \<longrightarrow> count_list (map Right ms) x = 1))"
proof -
  let ?n = "length vecs"
  from Cluster_state_after[OF assms] obtain vs sims ms where
    inv: "cluster_inv ?n (?n - 1) (vs, sims, ms)" and run: "Cluster vecs = Inr ms"
    by blast
  from inv have len: "length ms = ?n - 1"
    and dR: "distinct (map Right ms)" and sR: "Right ` set ms \<subseteq> {0..<?n}"
    by (simp_all add: cluster_inv_def)
  have "card (active ?n ms) = 1"
    using card_active[OF dR sR] len assms by simp
  then obtain survivor where act: "active ?n ms = {survivor}"
    by (auto simp: card_1_singleton_iff)
  then have s: "survivor < ?n" "survivor \<notin> set (map Right ms)"
    by (auto simp: active_def)
  have "count_list (map Right ms) x = 1" if "x < ?n" "x \<noteq> survivor" for x
  proof -
    from that act have "x \<in> set (map Right ms)" by (auto simp: active_def)
    with dR show ?thesis by (rule count_list_distinct)
  qed
  with run len s show ?thesis by auto
qed

lemma Cluster_single: "length vecs = 1 \<Longrightarrow> Cluster vecs = Inr []"
  using Cluster_complete[of vecs] by auto

lemma Cluster_Inr_nonempty: "Cluster vecs = Inr ms \<Longrightarrow> 1 \<le> length vecs"
  by (cases vecs) (simp_all add: Cluster_def)

lemma Cluster_ordered:
  assumes "Cluster vecs = Inr ms"
  shows "\<forall>m\<in>set ms. Right m < Left m \<and> Left m < length vecs"
proof -
  from Cluster_state_after[OF Cluster_Inr_nonempty[OF assms]] assms
  obtain vs sims where "cluster_inv (length vecs) (length vecs - 1) (vs, sims, ms)"
    by auto
  then show ?thesis by (simp add: cluster_inv_def)
qed

lemma Cluster_well_indexed:
  assumes "Cluster vecs = Inr ms"
  shows "well_indexed ms"
proof -
  from Cluster_complete[OF Cluster_Inr_nonempty[OF assms]] assms
  have "length ms = length vecs - 1" by auto
  with Cluster_Inr_nonempty[OF assms] have "length vecs = length ms + 1" by simp
  with Cluster_ordered[OF assms] show ?thesis
    by (auto simp: well_indexed_def list_all_iff)
qed

lemma sims_ordered:
  assumes "r = 0 \<or> r < length vecs" "state_after vecs r = Inr (vs, sims, ms)"
  shows "\<forall>s\<in>set sims. sim_j s < sim_i s"
proof
  fix s assume s: "s \<in> set sims"
  from state_after_inv[OF assms(1)] assms(2)
  have "cluster_inv (length vecs) r (vs, sims, ms)" by auto
  then have "pair_of ` set sims = active_pairs (active (length vecs) ms)"
    by (simp add: cluster_inv_def)
  with s have "pair_of s \<in> active_pairs (active (length vecs) ms)" by blast
  then show "sim_j s < sim_i s" by (simp add: active_pairs_def pair_of_def)
qed

section \<open>Properties of the term vectors\<close>

lemma get_absent: "key \<notin> fmdom' m \<Longrightarrow> get m key = 0"
  by (auto simp: get_def split: option.splits)

lemma get_fmupd [simp]: "get (fmupd k v m) key = (if k = key then v else get m key)"
  by (simp add: get_def)

lemma get_present: "key \<in> fmdom' m \<Longrightarrow> fmlookup m key = Some (get m key)"
  by (auto simp: get_def fmlookup_dom'_iff)

lemma set_range_keys [simp]: "set (range_keys m) = fmdom' m"
  by (simp add: range_keys_def fmdom'_alt_def)

lemma distinct_range_keys [simp]: "distinct (range_keys m)"
  by (simp add: range_keys_def sorted_list_of_fset.rep_eq)

lemma range_keys_single:
  assumes "fmdom' m = {key}"
  shows "range_keys m = [key]"
proof -
  have "range_keys m = sorted_list_of_set (fmdom' m)"
    by (simp add: range_keys_def sorted_list_of_fset.rep_eq fmdom'_alt_def)
  with assms show ?thesis by simp
qed

lemma range_keys_singleton [simp]: "range_keys (fmupd key v fmempty) = [key]"
  by (rule range_keys_single) simp

lemma M_Renorm_in [simp]: "M (Renorm_in keys a) = M a"
  by (simp add: Renorm_in_def)

lemma M_Renorm [simp]: "M (Renorm a) = M a"
  by (simp add: Renorm_def)

lemma tokens_Renorm [simp]: "tokens (Renorm a) = tokens a"
  by (simp add: tokens_def)

lemma tokens_Add: "tokens (Add a b) = tokens a \<union> tokens b"
  by (simp add: tokens_def Add_def fmdom'_alt_def)

lemma dom_Add: "fmdom' (M (Add a b)) = fmdom' (M a) \<union> fmdom' (M b)"
  using tokens_Add[of a b] by (simp add: tokens_def)

text \<open>The counts after \<^verbatim>\<open>Add\<close>: the sums, in the arithmetic of \<^verbatim>\<open>int\<close>.\<close>

lemma get_Add: "get (M (Add a b)) key = get (M a) key + get (M b) key"
  by (auto simp: Add_def get_def fmlookup_dom_iff split: option.splits)

lemma lookup_Add_absent:
  "key \<notin> fmdom' (M b) \<Longrightarrow> fmlookup (M (Add a b)) key = fmlookup (M a) key"
  by (auto simp: Add_def fmdom'_alt_def)

text \<open>The loop of \<^verbatim>\<open>Add\<close>, over the keys of \<^verbatim>\<open>b.M\<close> in any order.\<close>

lemma lookup_Add_loop:
  "distinct keys \<Longrightarrow>
   fmlookup (Add_loop keys bM aM) key
     = (if key \<in> set keys then Some (get aM key + get bM key) else fmlookup aM key)"
  unfolding Add_loop_def
proof (induction keys arbitrary: aM)
  case Nil
  show ?case by simp
next
  case (Cons k keys)
  then show ?case by (auto simp: get_def)
qed

lemma Add_loop_any_order:
  assumes "distinct keys" "set keys = fmdom' (M b)"
  shows "Add_loop keys (M b) (M a) = M (Add a b)"
proof (rule fmap_ext)
  fix key
  show "fmlookup (Add_loop keys (M b) (M a)) key = fmlookup (M (Add a b)) key"
  proof (cases "key \<in> fmdom' (M b)")
    case True
    then have "key \<in> fmdom' (M (Add a b))" by (simp add: dom_Add)
    then have "fmlookup (M (Add a b)) key = Some (get (M a) key + get (M b) key)"
      using get_present[of key "M (Add a b)"] by (simp add: get_Add)
    with True assms show ?thesis by (simp add: lookup_Add_loop)
  next
    case False
    with assms show ?thesis by (simp add: lookup_Add_loop lookup_Add_absent)
  qed
qed

text \<open>
  The norm that \<^verbatim>\<open>Renorm\<close> caches. When the sum of the squares of the counts is below
  \<open>2^53\<close>, no product wraps around and no sum is rounded: the norm is \<^verbatim>\<open>math.Sqrt\<close> of
  that sum, in whatever order the keys are visited.
\<close>

lemma Length_Renorm_in:
  "Length (Renorm_in keys a)
     = fsqrt (foldl (\<lambda>sum key. fadd sum (float64_of_int (sint (get (M a) key * get (M a) key))))
                (Finite 0) keys)"
  by (simp add: Renorm_in_def)


lemma sumsq_nonneg: "0 \<le> sumsq a"
  by (simp add: sumsq_def sum_nonneg)

lemma count_small:
  assumes "sumsq a < 2 ^ 53" "key \<in> fmdom' (M a)"
  shows "(sint (get (M a) key))\<^sup>2 < 2 ^ 53"
proof -
  have "(sint (get (M a) key))\<^sup>2 \<le> sumsq a"
    unfolding sumsq_def using assms(2) by (intro member_le_sum) simp_all
  with assms(1) show ?thesis by linarith
qed

lemma Renorm_in_exact:
  assumes keys: "distinct keys" "set keys = fmdom' (M a)" and small: "sumsq a < 2 ^ 53"
  shows "Length (Renorm_in keys a) = Finite (round64 (sqrt (of_int (sumsq a))))"
proof -
  let ?c = "\<lambda>key. sint (get (M a) key)"
  have sq: "sint (get (M a) key * get (M a) key) = (?c key)\<^sup>2" if "key \<in> fmdom' (M a)" for key
  proof -
    from count_small[OF small that] have "\<bar>?c key * ?c key\<bar> < 2 ^ 63"
      by (simp add: power2_eq_square abs_mult_self_eq)
    then show ?thesis by (simp add: sint_mult_exact power2_eq_square)
  qed
  have "foldl (\<lambda>sum key. fadd sum (float64_of_int (sint (get (M a) key * get (M a) key))))
          (Finite 0) keys
      = foldl (\<lambda>sum key. fadd sum (float64_of_int ((?c key)\<^sup>2))) (Finite 0) keys"
    by (rule foldl_cong) (simp_all add: sq keys)
  also have "\<dots> = Finite (of_int (\<Sum>key\<in>set keys. (?c key)\<^sup>2))"
    using small keys by (intro float_sum_keys_exact) (simp_all add: sumsq_def)
  finally have "Length (Renorm_in keys a) = fsqrt (Finite (of_int (sumsq a)))"
    unfolding Length_Renorm_in sumsq_def keys(2) by (rule arg_cong)
  moreover have "\<not> real_of_int (sumsq a) < 0" using sumsq_nonneg[of a] by linarith
  ultimately show ?thesis by (simp only: fsqrt.simps if_False)
qed

lemma Length_Renorm_exact:
  "sumsq a < 2 ^ 53 \<Longrightarrow> Length (Renorm a) = Finite (round64 (sqrt (of_int (sumsq a))))"
  unfolding Renorm_def by (rule Renorm_in_exact) simp_all


lemma sumsq_Renorm_in [simp]: "sumsq (Renorm_in keys a) = sumsq a"
  by (simp add: sumsq_def)

lemma sumsq_Renorm [simp]: "sumsq (Renorm a) = sumsq a"
  by (simp add: sumsq_def)

lemma Renorm_idem: "Renorm (Renorm a) = Renorm a"
  by (simp add: Renorm_def Renorm_in_def)

lemma Renorm_NewVec: "Renorm (NewVec list) = NewVec list"
  by (simp add: NewVec_def Renorm_idem)

lemma Renorm_Add: "Renorm (Add a b) = Add a b"
  by (simp add: Add_def Renorm_idem)

lemma Length_Add_exact:
  "sumsq (Add a b) < 2 ^ 53 \<Longrightarrow>
   Length (Add a b) = Finite (round64 (sqrt (of_int (sumsq (Add a b)))))"
  using Length_Renorm_exact[of "Add a b"] by (simp add: Renorm_Add)



text \<open>The counts of a new vector are the numbers of occurrences in the list.\<close>

lemma tokens_foldl:
  "fmdom' (foldl (\<lambda>m key. fmupd key (get m key + 1) m) m0 list) = fmdom' m0 \<union> set list"
  by (induction list arbitrary: m0) auto

lemma tokens_NewVec: "tokens (NewVec list) = set list"
  by (simp add: NewVec_def tokens_def tokens_foldl)

lemma dom_NewVec: "fmdom' (M (NewVec list)) = set list"
  using tokens_NewVec[of list] by (simp add: tokens_def)

lemma get_foldl_count:
  "get (foldl (\<lambda>m key. fmupd key (get m key + 1) m) m0 list) key
     = get m0 key + of_nat (count_list list key)"
  by (induction list arbitrary: m0) auto

lemma get_NewVec: "get (M (NewVec list)) key = of_nat (count_list list key)"
  by (simp add: NewVec_def get_foldl_count) (simp add: get_def)

lemma sint_of_nat_small:
  assumes "n < 2 ^ 63"
  shows "sint (of_nat n :: 64 word) = int n"
proof -
  have "(of_nat n :: 64 word) = word_of_int (int n)" by simp
  then have "sint (of_nat n :: 64 word) = sint (word_of_int (int n) :: 64 word)" by simp
  also have "\<dots> = signed_take_bit 63 (int n)" by (simp only: sint_sbintrunc') simp
  finally show ?thesis using assms by (simp add: signed_take_bit_int_eq_self)
qed

lemma sumsq_NewVec:
  assumes "length list < 2 ^ 63"
  shows "sumsq (NewVec list) = (\<Sum>key\<in>set list. (int (count_list list key))\<^sup>2)"
proof -
  have "count_list list key < 2 ^ 63" for key
    using count_le_length[of list key] assms by linarith
  then show ?thesis
    by (simp add: sumsq_def dom_NewVec get_NewVec sint_of_nat_small)
qed

lemma Length_NewVec_exact:
  "sumsq (NewVec list) < 2 ^ 53 \<Longrightarrow>
   Length (NewVec list) = Finite (round64 (sqrt (of_int (sumsq (NewVec list)))))"
  using Length_Renorm_exact[of "NewVec list"] by (simp add: Renorm_NewVec)

text \<open>
  The dot product. When the absolute values of its terms are together below \<open>2^53\<close>, no
  product wraps around and no sum is rounded: \<^verbatim>\<open>Dot\<close> is the dot product of the counts,
  in whatever order the keys are visited.
\<close>

lemma dot_terms_common:
  assumes "f 0 = (0::int)"
  shows "(\<Sum>key\<in>fmdom' (M x). f (sint (get (M x) key) * sint (get (M y) key)))
     = (\<Sum>key\<in>fmdom' (M x) \<inter> fmdom' (M y). f (sint (get (M x) key) * sint (get (M y) key)))"
  by (rule sum.mono_neutral_right) (auto simp: get_absent assms)

lemma dotsum_commute: "dotsum a b = dotsum b a"
  by (simp add: dotsum_def Int_commute mult.commute)

lemma dotabs_commute: "dotabs a b = dotabs b a"
  by (simp add: dotabs_def Int_commute mult.commute)

lemma Dot_in_exact:
  assumes keys: "distinct keys" "set keys = fmdom' (M a)" and small: "dotabs a b < 2 ^ 53"
  shows "Dot_in keys a b = Finite (of_int (dotsum a b))"
proof -
  let ?p = "\<lambda>key. sint (get (M a) key) * sint (get (M b) key)"
  have abs: "(\<Sum>key\<in>fmdom' (M a). \<bar>?p key\<bar>) = dotabs a b"
    unfolding dotabs_def by (rule dot_terms_common[of abs]) simp
  have sum: "(\<Sum>key\<in>fmdom' (M a). ?p key) = dotsum a b"
    unfolding dotsum_def by (rule dot_terms_common[of "\<lambda>x. x"]) simp
  have prod: "sint (get (M a) key * get (M b) key) = ?p key" if "key \<in> fmdom' (M a)" for key
  proof -
    have "\<bar>?p key\<bar> \<le> (\<Sum>key\<in>fmdom' (M a). \<bar>?p key\<bar>)"
      using that by (intro member_le_sum) simp_all
    moreover have "(2::int) ^ 53 \<le> 2 ^ 63" by simp
    ultimately have "\<bar>?p key\<bar> < 2 ^ 63" using small abs by linarith
    then show ?thesis by (rule sint_mult_exact)
  qed
  have "Dot_in keys a b
      = foldl (\<lambda>sum key. fadd sum (float64_of_int (?p key))) (Finite 0) keys"
    unfolding Dot_in_def by (rule foldl_cong) (simp_all add: prod keys)
  also have "\<dots> = Finite (of_int (\<Sum>key\<in>set keys. ?p key))"
    using small keys abs by (intro float_sum_keys_exact) simp_all
  finally show ?thesis by (simp only: keys(2) sum)
qed

lemma Dot_exact:
  assumes "dotabs a b < 2 ^ 53"
  shows "Dot a b = Finite (of_int (dotsum a b))"
proof (cases "fcard (fmdom (M b)) < fcard (fmdom (M a))")
  case True
  then have "Dot a b = Dot_in (range_keys (M b)) b a" by (simp add: Dot_def)
  also have "\<dots> = Finite (of_int (dotsum b a))"
    using assms by (intro Dot_in_exact) (simp_all add: dotabs_commute)
  finally show ?thesis by (simp only: dotsum_commute)
next
  case False
  then have "Dot a b = Dot_in (range_keys (M a)) a b" by (simp add: Dot_def)
  also have "\<dots> = Finite (of_int (dotsum a b))"
    using assms by (intro Dot_in_exact) simp_all
  finally show ?thesis .
qed

lemma Dot_commute: "dotabs a b < 2 ^ 53 \<Longrightarrow> Dot a b = Dot b a"
  using Dot_exact[of a b] Dot_exact[of b a] by (simp add: dotabs_commute dotsum_commute)

lemma fmul_commute: "fmul x y = fmul y x"
  by (cases x; cases y) (simp_all add: mult.commute)

lemma Sim_commute: "dotabs a b < 2 ^ 53 \<Longrightarrow> Sim a b = Sim b a"
  using Dot_commute[of a b] fmul_commute[of "Length a" "Length b"] by (simp add: Sim_def)

lemma Sim_zero_norm: "Length a = Finite 0 \<or> Length b = Finite 0 \<Longrightarrow> Sim a b = Finite 0"
  by (simp add: Sim_def)




text \<open>Vectors that share no token have the dot product 0.\<close>

lemma Dot_in_disjoint:
  assumes "set keys \<subseteq> fmdom' (M x)" "fmdom' (M x) \<inter> fmdom' (M y) = {}"
  shows "Dot_in keys x y = Finite 0"
  unfolding Dot_in_def
proof (rule float_sum_zero, rule ballI)
  fix key assume "key \<in> set keys"
  with assms have "key \<notin> fmdom' (M y)" by auto
  then show "float64_of_int (sint (get (M x) key * get (M y) key)) = Finite 0"
    by (simp add: get_absent float64_of_int_def)
qed

lemma Dot_disjoint:
  assumes "tokens a \<inter> tokens b = {}"
  shows "Dot a b = Finite 0"
  using assms Dot_in_disjoint[of "range_keys (M a)" a b] Dot_in_disjoint[of "range_keys (M b)" b a]
  by (auto simp: Dot_def tokens_def Int_commute)

lemma Sim_disjoint:
  assumes "tokens a \<inter> tokens b = {}" "Length a \<noteq> NaN" "Length b \<noteq> NaN"
  shows "Sim a b = Finite 0"
proof -
  from assms obtain x y where xy: "Length a = Finite x" "Length b = Finite y"
    by (cases "Length a"; cases "Length b") auto
  show ?thesis by (simp add: Sim_def xy Dot_disjoint[OF assms(1)])
qed


subsection \<open>The range of \<^verbatim>\<open>Sim\<close>\<close>

lemma round64_square_sqrt3:
  "round64 (7800463371553962 / 2 ^ 52 * (7800463371553962 / 2 ^ 52)) = 6755399441055743 / 2 ^ 51"
proof -
  have "round64 (7800463371553962 / 2 ^ 52 * (7800463371553962 / 2 ^ 52))
      = 2 powr (of_int 1 - 52) * of_int 6755399441055743"
    by (rule round64_eqI) (simp_all add: powr_minus field_simps)
  then show ?thesis by (simp add: powr_minus field_simps)
qed

lemma round64_quotient_sqrt3:
  "round64 (3 / (6755399441055743 / 2 ^ 51)) = 1 + 1 / 2 ^ 52"
proof -
  have "round64 (3 / (6755399441055743 / 2 ^ 51))
      = 2 powr (of_int 0 - 52) * of_int 4503599627370497"
    by (rule round64_eqI) (simp_all add: powr_minus field_simps)
  then show ?thesis by (simp add: powr_minus field_simps)
qed


lemma dotsum_self: "dotsum a a = sumsq a"
  by (simp add: dotsum_def sumsq_def power2_eq_square)

lemma dotabs_self: "dotabs a a = sumsq a"
  by (simp add: dotabs_def sumsq_def power2_eq_square abs_mult_self_eq)

lemma Cauchy_Schwarz_step:
  fixes s A B a b :: real
  assumes "s\<^sup>2 \<le> A * B" "0 \<le> A" "0 \<le> B"
  shows "(s + a * b)\<^sup>2 \<le> (A + a\<^sup>2) * (B + b\<^sup>2)"
proof -
  have "(2 * s * a * b)\<^sup>2 = 4 * s\<^sup>2 * (a\<^sup>2 * b\<^sup>2)"
    by (simp add: power2_eq_square)
  also have "\<dots> \<le> 4 * (A * B) * (a\<^sup>2 * b\<^sup>2)"
    using assms(1) by (intro mult_right_mono mult_left_mono) simp_all
  also have "\<dots> \<le> (A * b\<^sup>2 + B * a\<^sup>2)\<^sup>2"
  proof -
    have "0 \<le> (A * b\<^sup>2 - B * a\<^sup>2)\<^sup>2" by simp
    then show ?thesis by (simp add: power2_eq_square algebra_simps)
  qed
  finally have "(2 * s * a * b)\<^sup>2 \<le> (A * b\<^sup>2 + B * a\<^sup>2)\<^sup>2" .
  moreover have "0 \<le> A * b\<^sup>2 + B * a\<^sup>2" using assms(2,3) by simp
  ultimately have "2 * s * a * b \<le> A * b\<^sup>2 + B * a\<^sup>2"
    by (rule power2_le_imp_le)
  with assms(1) show ?thesis by (simp add: power2_eq_square algebra_simps)
qed

lemma Cauchy_Schwarz_sum:
  fixes x y :: "'a \<Rightarrow> real"
  assumes "finite S"
  shows "(\<Sum>i\<in>S. x i * y i)\<^sup>2 \<le> (\<Sum>i\<in>S. (x i)\<^sup>2) * (\<Sum>i\<in>S. (y i)\<^sup>2)"
  using assms
proof (induction S)
  case empty
  show ?case by simp
next
  case (insert i S)
  have "((\<Sum>i\<in>S. x i * y i) + x i * y i)\<^sup>2
      \<le> ((\<Sum>i\<in>S. (x i)\<^sup>2) + (x i)\<^sup>2) * ((\<Sum>i\<in>S. (y i)\<^sup>2) + (y i)\<^sup>2)"
    using insert.IH by (rule Cauchy_Schwarz_step) (simp_all add: sum_nonneg)
  with insert.hyps show ?case by (simp add: add.commute)
qed


lemma dotabs_le_norms:
  "real_of_int (dotabs a b) \<le> sqrt (of_int (sumsq a)) * sqrt (of_int (sumsq b))"
proof -
  let ?S = "fmdom' (M a) \<union> fmdom' (M b)"
  let ?x = "\<lambda>key. \<bar>real_of_int (sint (get (M a) key))\<bar>"
  let ?y = "\<lambda>key. \<bar>real_of_int (sint (get (M b) key))\<bar>"
  have fin: "finite ?S" by simp
  have "real_of_int (dotabs a b)
      = (\<Sum>key\<in>fmdom' (M a) \<inter> fmdom' (M b). ?x key * ?y key)"
    by (simp add: dotabs_def abs_mult)
  also have "\<dots> = (\<Sum>key\<in>?S. ?x key * ?y key)"
    by (rule sum.mono_neutral_left) (auto intro: ccontr simp: get_absent)
  finally have d: "real_of_int (dotabs a b) = (\<Sum>key\<in>?S. ?x key * ?y key)" .
  have "real_of_int (sumsq a) = (\<Sum>key\<in>fmdom' (M a). (?x key)\<^sup>2)"
    by (simp add: sumsq_def)
  also have "\<dots> = (\<Sum>key\<in>?S. (?x key)\<^sup>2)"
    by (rule sum.mono_neutral_left) (auto simp: get_absent)
  finally have na: "real_of_int (sumsq a) = (\<Sum>key\<in>?S. (?x key)\<^sup>2)" .
  have "real_of_int (sumsq b) = (\<Sum>key\<in>fmdom' (M b). (?y key)\<^sup>2)"
    by (simp add: sumsq_def)
  also have "\<dots> = (\<Sum>key\<in>?S. (?y key)\<^sup>2)"
    by (rule sum.mono_neutral_left) (auto simp: get_absent)
  finally have nb: "real_of_int (sumsq b) = (\<Sum>key\<in>?S. (?y key)\<^sup>2)" .
  from Cauchy_Schwarz_sum[OF fin, of ?x ?y]
  have "(real_of_int (dotabs a b))\<^sup>2 \<le> real_of_int (sumsq a) * real_of_int (sumsq b)"
    by (simp only: d na nb)
  then have "sqrt ((real_of_int (dotabs a b))\<^sup>2)
      \<le> sqrt (real_of_int (sumsq a) * real_of_int (sumsq b))"
    by (rule real_sqrt_le_mono)
  moreover have "0 \<le> dotabs a b" by (simp add: dotabs_def sum_nonneg)
  ultimately show ?thesis by (simp add: real_sqrt_mult)
qed

lemma dotabs_small:
  assumes "sumsq a < 2 ^ 53" "sumsq b < 2 ^ 53"
  shows "dotabs a b < 2 ^ 53"
proof -
  have le: "sqrt (real_of_int (sumsq v)) \<le> sqrt (2 ^ 53 - 1)" if "sumsq v < 2 ^ 53" for v
  proof -
    from that have "sumsq v \<le> 2 ^ 53 - 1" by simp
    then have "real_of_int (sumsq v) \<le> real_of_int (2 ^ 53 - 1)" by (simp only: of_int_le_iff)
    then show ?thesis by simp
  qed
  have "real_of_int (dotabs a b) \<le> sqrt (of_int (sumsq a)) * sqrt (of_int (sumsq b))"
    by (rule dotabs_le_norms)
  also have "\<dots> \<le> sqrt (2 ^ 53 - 1) * sqrt (2 ^ 53 - 1)"
    using le[OF assms(1)] le[OF assms(2)] by (intro mult_mono) (simp_all add: sumsq_nonneg)
  also have "\<dots> = 2 ^ 53 - 1" by simp
  finally have "real_of_int (dotabs a b) < real_of_int (2 ^ 53)" by simp
  then show ?thesis by (simp only: of_int_less_iff)
qed

lemma dotsum_le_dotabs: "dotsum a b \<le> dotabs a b"
  unfolding dotsum_def dotabs_def by (rule sum_mono) simp

lemma dotsum_nonneg:
  assumes "\<forall>key. 0 \<le> sint (get (M a) key)" "\<forall>key. 0 \<le> sint (get (M b) key)"
  shows "0 \<le> dotsum a b"
  unfolding dotsum_def using assms by (intro sum_nonneg) simp

lemma rounding_slack:
  fixes u :: real
  assumes "0 \<le> u" "u \<le> 1 / 8"
  shows "1 + u \<le> (1 + 8 * u) * (1 - u) ^ 3"
proof -
  have "(1 + 8 * u) * (1 - u) ^ 3 - (1 + u) = u * ((4 - 21 * u) + u\<^sup>2 * (23 - 8 * u))"
    by (simp add: power3_eq_cube power2_eq_square algebra_simps)
  moreover have "0 \<le> u * ((4 - 21 * u) + u\<^sup>2 * (23 - 8 * u))"
    using assms by (intro mult_nonneg_nonneg add_nonneg_nonneg) simp_all
  ultimately show ?thesis by linarith
qed


text \<open>
  For vectors of non-negative counts with their norms in sync and the squares of their
  counts below \<open>2^53\<close>, \<^verbatim>\<open>Sim\<close> is a number between 0 and \<open>1 + 2^-50\<close>.
\<close>

lemma Sim_range_rounded:
  assumes a: "Renorm a = a" and b: "Renorm b = b"
    and sa: "sumsq a < 2 ^ 53" and sb: "sumsq b < 2 ^ 53"
    and pa: "\<forall>key. 0 \<le> sint (get (M a) key)" and pb: "\<forall>key. 0 \<le> sint (get (M b) key)"
  shows "\<exists>x. Sim a b = Finite x \<and> 0 \<le> x \<and> x \<le> 1 + 1 / 2 ^ 50"
proof -
  define u :: real where "u = 1 / 2 ^ 53"
  define na nb where "na = sqrt (real_of_int (sumsq a))" and "nb = sqrt (real_of_int (sumsq b))"
  define la lb where "la = round64 na" and "lb = round64 nb"
  define d where "d = real_of_int (dotsum a b)"
  have u: "0 < u" "u < 1" by (simp_all add: u_def)
  have na0: "0 \<le> na" and nb0: "0 \<le> nb" by (simp_all add: na_def nb_def sumsq_nonneg)
  have La: "Length a = Finite la"
    using Length_Renorm_exact[OF sa] by (simp add: a la_def na_def)
  have Lb: "Length b = Finite lb"
    using Length_Renorm_exact[OF sb] by (simp add: b lb_def nb_def)
  have D: "Dot a b = Finite d"
    unfolding d_def by (rule Dot_exact, rule dotabs_small[OF sa sb])
  have D0: "0 \<le> d" using dotsum_nonneg[OF pa pb] by (simp add: d_def)
  have "real_of_int (dotsum a b) \<le> real_of_int (dotabs a b)"
    using dotsum_le_dotabs[of a b] by (simp only: of_int_le_iff)
  with dotabs_le_norms[of a b] have D_up: "d \<le> na * nb"
    by (simp add: d_def na_def nb_def)
  show ?thesis
  proof (cases "la = 0 \<or> lb = 0")
    case True
    then have "Sim a b = Finite 0" by (auto simp: Sim_def La Lb)
    then show ?thesis by simp
  next
    case False
    then have "na \<noteq> 0" "nb \<noteq> 0" by (auto simp: la_def lb_def)
    with na0 nb0 have napos: "0 < na" and nbpos: "0 < nb" by simp_all
    have La_lo: "na * (1 - u) \<le> la" and Lb_lo: "nb * (1 - u) \<le> lb"
      using round64_lower[OF na0] round64_lower[OF nb0] by (simp_all add: la_def lb_def u_def)
    have La_pos: "0 < la" and Lb_pos: "0 < lb"
      using round64_pos[OF napos] round64_pos[OF nbpos] by (simp_all add: la_def lb_def)
    define P where "P = round64 (la * lb)"
    have "la * lb * (1 - u) \<le> P"
      using round64_lower[of "la * lb"] La_pos Lb_pos by (simp add: P_def u_def)
    moreover have "(na * (1 - u)) * (nb * (1 - u)) \<le> la * lb"
      using La_lo Lb_lo na0 nb0 u La_pos Lb_pos by (intro mult_mono) simp_all
    then have "(na * (1 - u)) * (nb * (1 - u)) * (1 - u) \<le> la * lb * (1 - u)"
      using u by (intro mult_right_mono) simp_all
    moreover have "na * nb * (1 - u) ^ 3 = (na * (1 - u)) * (nb * (1 - u)) * (1 - u)"
      by (simp add: power3_eq_cube)
    ultimately have P_lo: "na * nb * (1 - u) ^ 3 \<le> P"
      by linarith
    have low_pos: "0 < na * nb * (1 - u) ^ 3" using napos nbpos u by simp
    with P_lo have P_pos: "0 < P" by linarith
    have Q0: "0 \<le> d / P" using D0 P_pos by simp
    have "d / P \<le> (na * nb) / (na * nb * (1 - u) ^ 3)"
      using D_up D0 P_lo low_pos napos nbpos by (intro frac_le) simp_all
    also have "\<dots> = 1 / (1 - u) ^ 3" using napos nbpos by simp
    finally have Q_up: "d / P \<le> 1 / (1 - u) ^ 3" .
    have S: "Sim a b = Finite (round64 (d / P))"
      using False P_pos by (simp add: Sim_def La Lb D P_def)
    have "round64 (d / P) \<le> d / P * (1 + u)"
      using round64_upper[OF Q0] by (simp add: u_def)
    also have "\<dots> \<le> 1 / (1 - u) ^ 3 * (1 + u)"
      using Q_up u by (intro mult_right_mono) simp_all
    also have "\<dots> = (1 + u) / (1 - u) ^ 3" by simp
    also have "\<dots> \<le> 1 + 8 * u"
    proof -
      have "0 < (1 - u) ^ 3" using u by simp
      moreover have "1 + u \<le> (1 + 8 * u) * (1 - u) ^ 3"
        by (rule rounding_slack) (simp_all add: u_def)
      ultimately show ?thesis by (simp only: pos_divide_le_eq)
    qed
    also have "\<dots> = 1 + 1 / 2 ^ 50" by (simp add: u_def)
    finally have "round64 (d / P) \<le> 1 + 1 / 2 ^ 50" .
    moreover have "0 \<le> round64 (d / P)" using Q0 by (rule round64_nonneg)
    ultimately show ?thesis using S by simp
  qed
qed

subsection \<open>Vectors that share no token\<close>






text \<open>Vectors of one token each.\<close>

lemma sumsq_singleton: "sumsq (NewVec [t]) = 1"
  using sumsq_NewVec[of "[t]"] by simp

lemma Length_singleton: "Length (NewVec [t]) = Finite 1"
  using Length_NewVec_exact[of "[t]"] by (simp add: sumsq_singleton)





subsection \<open>The rounds of the loop\<close>

lemma one_entry_per_pairI:
  assumes dist: "distinct (map pair_of sims)" and pairs: "pair_of ` set sims = active_pairs A"
  shows "one_entry_per_pair A sims"
  unfolding one_entry_per_pair_def
proof (rule conjI)
  show "\<forall>s\<in>set sims. sim_i s \<in> A \<and> sim_j s \<in> A \<and> sim_i s \<noteq> sim_j s"
  proof
    fix s assume "s \<in> set sims"
    with pairs have "pair_of s \<in> active_pairs A" by blast
    then show "sim_i s \<in> A \<and> sim_j s \<in> A \<and> sim_i s \<noteq> sim_j s"
      by (auto simp: active_pairs_def pair_of_def)
  qed
next
  show "\<forall>a\<in>A. \<forall>b\<in>A. a \<noteq> b \<longrightarrow>
          (\<exists>!k. k < length sims \<and> {sim_i (sims ! k), sim_j (sims ! k)} = {a, b})"
  proof (intro ballI impI)
  fix a b assume ab: "a \<in> A" "b \<in> A" "a \<noteq> b"
  have ord: "sim_j s < sim_i s" if "s \<in> set sims" for s
  proof -
    from that pairs have "pair_of s \<in> active_pairs A" by blast
    then show ?thesis by (simp add: active_pairs_def pair_of_def)
  qed
  have key: "{sim_i (sims ! k), sim_j (sims ! k)} = {a, b} \<longleftrightarrow> pair_of (sims ! k) = (max a b, min a b)"
    if "k < length sims" for k
    using ord[of "sims ! k"] that ab(3) by (auto simp: pair_of_def doubleton_eq_iff max_def min_def)
  from ab have "(max a b, min a b) \<in> active_pairs A"
    by (auto simp: active_pairs_def max_def min_def)
  with pairs obtain s where "s \<in> set sims" "pair_of s = (max a b, min a b)"
    by (metis (no_types, lifting) imageE)
  then obtain k where k: "k < length sims" "pair_of (sims ! k) = (max a b, min a b)"
    by (auto simp: in_set_conv_nth)
  show "\<exists>!k. k < length sims \<and> {sim_i (sims ! k), sim_j (sims ! k)} = {a, b}"
  proof (rule ex1I[of _ k])
    show "k < length sims \<and> {sim_i (sims ! k), sim_j (sims ! k)} = {a, b}"
      using k key by simp
  next
    fix l assume l: "l < length sims \<and> {sim_i (sims ! l), sim_j (sims ! l)} = {a, b}"
    then have "pair_of (sims ! l) = (max a b, min a b)"
      using key[of l] by blast
    with l k have "map pair_of sims ! l = map pair_of sims ! k"
      by simp
    with dist l k show "l = k"
      by (simp add: nth_eq_iff_index_eq del: nth_map)
  qed
  qed
qed

lemma round_body_merges:
  "round_body r (vs, sims, ms) = Inr (vs', sims', ms') \<Longrightarrow> \<exists>m. ms' = ms @ [m]"
  by (auto simp: round_body_def Let_def split: sum.splits if_splits)

lemma state_after_extends:
  "state_after vecs0 r = Inr (vs, sims, ms) \<Longrightarrow>
   state_after vecs0 (r + d) = Inr (vs', sims', ms') \<Longrightarrow> \<exists>ext. ms' = ms @ ext"
proof (induction d arbitrary: vs' sims' ms')
  case 0
  then show ?case by simp
next
  case (Suc d)
  from Suc.prems(2) obtain vs1 sims1 ms1 where
    st1: "state_after vecs0 (r + d) = Inr (vs1, sims1, ms1)"
    and rb: "round_body (r + d) (vs1, sims1, ms1) = Inr (vs', sims', ms')"
    by (auto split: sum.splits)
  from Suc.IH[OF Suc.prems(1) st1] round_body_merges[OF rb] show ?case by auto
qed

text \<open>The entry selected in round \<open>r\<close>, and the merge that \<^verbatim>\<open>Cluster\<close> returns for it.\<close>

lemma Cluster_round:
  assumes r: "Suc r < length vecs0"
  shows "\<exists>vecs sims merges k maxsim ms.
           state_after vecs0 r = Inr (vecs, sims, merges)
           \<and> cluster_inv (length vecs0) r (vecs, sims, merges)
           \<and> k < length sims \<and> maxsim = sims ! k \<and> find_maxsim sims = Inr maxsim
           \<and> ((\<forall>s\<in>set sims. sim_val s \<noteq> NaN) \<longrightarrow> first_maximum sims k)
           \<and> state_after vecs0 (Suc r)
               = Inr (absorb vecs maxsim,
                      map (recompute (absorb vecs maxsim) maxsim)
                        (filter (\<lambda>s. \<not> refers s (sim_j maxsim)) sims),
                      merges @ [\<lparr>Left = sim_i maxsim, Right = sim_j maxsim\<rparr>])
           \<and> Cluster vecs0 = Inr ms
           \<and> ms ! r = \<lparr>Left = sim_i maxsim, Right = sim_j maxsim\<rparr>"
proof -
  let ?n = "length vecs0"
  from r have "r = 0 \<or> r < ?n" by simp
  from state_after_inv[OF this] obtain vecs sims merges where
    st: "state_after vecs0 r = Inr (vecs, sims, merges)"
    and inv: "cluster_inv ?n r (vecs, sims, merges)"
    by (metis prod_cases3)
  from round_body_inv[OF inv r] obtain k maxsim where
    sel: "k < length sims" "maxsim = sims ! k" "find_maxsim sims = Inr maxsim"
      "(\<forall>s\<in>set sims. sim_val s \<noteq> NaN) \<longrightarrow> first_maximum sims k"
    and step: "round_body r (vecs, sims, merges)
        = Inr (absorb vecs maxsim,
               map (recompute (absorb vecs maxsim) maxsim)
                 (filter (\<lambda>s. \<not> refers s (sim_j maxsim)) sims),
               merges @ [\<lparr>Left = sim_i maxsim, Right = sim_j maxsim\<rparr>])"
    by blast
  let ?m = "\<lparr>Left = sim_i maxsim, Right = sim_j maxsim\<rparr>"
  from st step have st': "state_after vecs0 (Suc r)
      = Inr (absorb vecs maxsim,
             map (recompute (absorb vecs maxsim) maxsim)
               (filter (\<lambda>s. \<not> refers s (sim_j maxsim)) sims),
             merges @ [?m])"
    by simp
  from r have n1: "1 \<le> ?n" by simp
  from Cluster_state_after[OF n1] obtain vsF simsF ms where
    fin: "state_after vecs0 (?n - 1) = Inr (vsF, simsF, ms)" and run: "Cluster vecs0 = Inr ms"
    by blast
  have "?n - 1 = Suc r + (?n - 1 - Suc r)" using r by simp
  with fin have "state_after vecs0 (Suc r + (?n - 1 - Suc r)) = Inr (vsF, simsF, ms)" by simp
  from state_after_extends[OF st' this] obtain ext where "ms = (merges @ [?m]) @ ext" ..
  moreover from inv have "length merges = r" by (simp add: cluster_inv_def)
  ultimately have "ms ! r = ?m" by (simp add: nth_append)
  with st inv sel st' run show ?thesis by blast
qed
subsection \<open>The example\<close>

lemma example_NewVec:
  "NewVec [''a''] = \<lparr>M = fmupd ''a'' 1 fmempty, Length = Finite 1\<rparr>"
  "NewVec [''b''] = \<lparr>M = fmupd ''b'' 1 fmempty, Length = Finite 1\<rparr>"
  by (simp_all add: NewVec_def Renorm_def Renorm_in_def get_def float64_of_int_def)

lemma example_Sim:
  "Sim (NewVec [''a'']) (NewVec [''a'']) = Finite 1"
  "Sim (NewVec [''a'']) (NewVec [''b'']) = Finite 0"
  "Sim (NewVec [''b'']) (NewVec [''a'']) = Finite 0"
  by (simp_all add: example_NewVec Sim_def Dot_def Dot_in_def get_def float64_of_int_def)

lemma example_populate:
  "populate example_vecs =
     [\<lparr>sim_i = 1, sim_j = 0, sim_val = Finite 0\<rparr>, \<lparr>sim_i = 2, sim_j = 0, sim_val = Finite 1\<rparr>,
      \<lparr>sim_i = 2, sim_j = 1, sim_val = Finite 0\<rparr>]"
  by (simp add: example_vecs_def populate_def example_Sim)


lemma example_Length_merged: "Length (Add (NewVec [''a'']) (NewVec [''a''])) = Finite 2"
proof -
  have "sumsq (Add (NewVec [''a'']) (NewVec [''a''])) = 4"
    by (simp add: sumsq_def dom_Add get_Add dom_NewVec get_NewVec)
  with Length_Add_exact[of "NewVec [''a'']" "NewVec [''a'']"] show ?thesis by simp
qed

lemma example_Sim_merged:
  "Sim (Add (NewVec [''a'']) (NewVec [''a''])) (NewVec [''b'']) = Finite 0"
  by (rule Sim_disjoint) (simp_all add: tokens_Add tokens_NewVec example_Length_merged Length_singleton)

lemma example_state_1:
  "state_after example_vecs 1 =
     Inr (example_vecs[2 := Add (example_vecs ! 2) (example_vecs ! 0)],
          [\<lparr>sim_i = 2, sim_j = 1, sim_val = Finite 0\<rparr>],
          [\<lparr>Left = 2, Right = 0\<rparr>])"
proof -
  have len: "length example_vecs = 3" by (simp add: example_vecs_def)
  have "state_after example_vecs 1 = round_body 0 (example_vecs, populate example_vecs, [])"
    by simp
  also have "\<dots> = Inr (example_vecs[2 := Add (example_vecs ! 2) (example_vecs ! 0)],
          [\<lparr>sim_i = 2, sim_j = 1, sim_val = Sim (Add (NewVec [''a'']) (NewVec [''a''])) (NewVec [''b''])\<rparr>],
          [\<lparr>Left = 2, Right = 0\<rparr>])"
    by (simp add: round_body_def example_populate find_maxsim_def len Let_def)
      (simp add: example_vecs_def)
  finally show ?thesis by (simp add: example_Sim_merged)
qed

lemma example_state_2:
  "state_after example_vecs 2 =
     Inr ((example_vecs[2 := Add (example_vecs ! 2) (example_vecs ! 0)])
            [2 := Add (Add (example_vecs ! 2) (example_vecs ! 0)) (example_vecs ! 1)],
          [],
          [\<lparr>Left = 2, Right = 0\<rparr>, \<lparr>Left = 2, Right = 1\<rparr>])"
proof -
  have len: "length example_vecs = 3" by (simp add: example_vecs_def)
  have "state_after example_vecs 2
      = round_body 1 (example_vecs[2 := Add (example_vecs ! 2) (example_vecs ! 0)],
          [\<lparr>sim_i = 2, sim_j = 1, sim_val = Finite 0\<rparr>], [\<lparr>Left = 2, Right = 0\<rparr>])"
    using example_state_1 by (simp add: numeral_2_eq_2)
  then show ?thesis
    by (simp add: round_body_def find_maxsim_def len Let_def)
qed

lemma example_Cluster:
  "Cluster example_vecs = Inr [\<lparr>Left = 2, Right = 0\<rparr>, \<lparr>Left = 2, Right = 1\<rparr>]"
proof -
  have "1 \<le> length example_vecs" by (simp add: example_vecs_def)
  from Cluster_state_after[OF this] obtain vecs sims merges where
    st: "state_after example_vecs (length example_vecs - 1) = Inr (vecs, sims, merges)"
    and run: "Cluster example_vecs = Inr merges"
    by blast
  have "length example_vecs - 1 = 2" by (simp add: example_vecs_def)
  with st have "state_after example_vecs 2 = Inr (vecs, sims, merges)" by (simp only:)
  then have "merges = [\<lparr>Left = 2, Right = 0\<rparr>, \<lparr>Left = 2, Right = 1\<rparr>]"
    by (simp only: example_state_2) simp
  with run show ?thesis by simp
qed

subsection \<open>A count whose square wraps around\<close>

lemma count_vec_M [simp]: "M (count_vec key n) = fmupd key n fmempty"
  by (simp add: count_vec_def)







subsection \<open>The claims about the merge loop\<close>


text \<open>
  Claim C1. \<^verbatim>\<open>Cluster\<close> does not complete on the empty slice: the capacity
  \<^verbatim>\<open>len(vecs)-1\<close> of \<^verbatim>\<open>make([]Merge, 0, len(vecs)-1)\<close> is negative, and \<^verbatim>\<open>make\<close> panics.
  (On one vector or more it completes, \<open>Cluster_complete\<close>; on one vector it returns the
  empty sequence, \<open>Cluster_single\<close>.)
\<close>

theorem Cluster_panics_on_empty_input: "Cluster [] = Inl MakesliceCapOutOfRange"
  by (simp add: Cluster_def)

text \<open>
  Claim C2. On the empty slice \<^verbatim>\<open>Cluster\<close> returns no merge sequence at all, where the
  claim has it return \<open>max (0 - 1) 0 = 0\<close> merges. (On \<open>n \<ge> 1\<close> vectors it returns
  \<open>n - 1\<close> merges, and every index but one survivor is absorbed exactly once:
  \<open>Cluster_complete\<close>.)
\<close>

theorem Cluster_returns_nothing_on_empty_input:
  "\<not> (\<exists>ms. Cluster [] = Inr ms \<and> int (length ms) = max (int (length ([]::Vec list)) - 1) 0)"
  by (simp add: Cluster_def)




text \<open>
  Claim C5. At the boundary after \<open>r\<close> rounds the matrix holds exactly one entry for
  every two active clusters. A round that the loop runs drops the entries that refer to
  the absorbed cluster, keeps the others in their order, and stores an entry it keeps
  with its value computed anew from the vectors after the merge when the entry refers to
  the survivor, and as it is otherwise (\<open>recompute\<close>).
\<close>

theorem similarity_matrix_update:
  "(r = 0 \<or> r < length vecs0) \<longrightarrow>
     (\<exists>vecs sims merges.
         state_after vecs0 r = Inr (vecs, sims, merges)
       \<and> one_entry_per_pair (active (length vecs0) merges) sims
       \<and> (Suc r < length vecs0 \<longrightarrow>
            (\<exists>maxsim. find_maxsim sims = Inr maxsim
               \<and> state_after vecs0 (Suc r)
                   = Inr (absorb vecs maxsim,
                          map (recompute (absorb vecs maxsim) maxsim)
                            (filter (\<lambda>s. \<not> refers s (sim_j maxsim)) sims),
                          merges @ [\<lparr>Left = sim_i maxsim, Right = sim_j maxsim\<rparr>]))))"
proof
  assume r: "r = 0 \<or> r < length vecs0"
  from state_after_inv[OF r] obtain vecs sims merges where
    st: "state_after vecs0 r = Inr (vecs, sims, merges)"
    and inv: "cluster_inv (length vecs0) r (vecs, sims, merges)"
    by (metis prod_cases3)
  from inv have one: "one_entry_per_pair (active (length vecs0) merges) sims"
    by (intro one_entry_per_pairI) (simp_all add: cluster_inv_def)
  have "\<exists>maxsim. find_maxsim sims = Inr maxsim
          \<and> state_after vecs0 (Suc r)
              = Inr (absorb vecs maxsim,
                     map (recompute (absorb vecs maxsim) maxsim)
                       (filter (\<lambda>s. \<not> refers s (sim_j maxsim)) sims),
                     merges @ [\<lparr>Left = sim_i maxsim, Right = sim_j maxsim\<rparr>])"
    if "Suc r < length vecs0"
    using Cluster_round[OF that] st by auto
  with st one show "\<exists>vecs sims merges.
         state_after vecs0 r = Inr (vecs, sims, merges)
       \<and> one_entry_per_pair (active (length vecs0) merges) sims
       \<and> (Suc r < length vecs0 \<longrightarrow>
            (\<exists>maxsim. find_maxsim sims = Inr maxsim
               \<and> state_after vecs0 (Suc r)
                   = Inr (absorb vecs maxsim,
                          map (recompute (absorb vecs maxsim) maxsim)
                            (filter (\<lambda>s. \<not> refers s (sim_j maxsim)) sims),
                          merges @ [\<lparr>Left = sim_i maxsim, Right = sim_j maxsim\<rparr>])))"
    by blast
qed

theorem similarity_matrix_update_witness:
  "Suc 0 < length example_vecs
   \<and> one_entry_per_pair {0, 1, 2} (populate example_vecs)
   \<and> state_after example_vecs 1 =
       Inr (example_vecs[2 := Add (example_vecs ! 2) (example_vecs ! 0)],
            [\<lparr>sim_i = 2, sim_j = 1, sim_val = Finite 0\<rparr>], [\<lparr>Left = 2, Right = 0\<rparr>])
   \<and> one_entry_per_pair {1, 2} [\<lparr>sim_i = 2, sim_j = 1, sim_val = Finite 0\<rparr>]"
proof -
  have len: "length example_vecs = 3" by (simp add: example_vecs_def)
  have a0: "active 3 [] = {0, 1, 2}" by (auto simp: active_def)
  have a1: "active 3 [\<lparr>Left = 2, Right = 0\<rparr>] = {1, 2}" by (auto simp: active_def)
  from similarity_matrix_update[of 0 example_vecs]
  have "one_entry_per_pair {0, 1, 2} (populate example_vecs)"
    by (simp add: len a0)
  moreover from similarity_matrix_update[of 1 example_vecs]
  have "one_entry_per_pair {1, 2} [\<lparr>sim_i = 2, sim_j = 1, sim_val = Finite 0\<rparr>]"
    unfolding example_state_1 by (simp add: len a1)
  ultimately show ?thesis using example_state_1 by (simp add: len)
qed

text \<open>
  Claim C9. Every merge \<^verbatim>\<open>Cluster\<close> returns has \<open>Left > Right\<close>: at every round
  boundary every entry of the matrix has its first index above its second, and a merge
  records the two indices of an entry.
\<close>

theorem Cluster_merges_left_above_right:
  "(\<forall>ms. Cluster vecs = Inr ms \<longrightarrow> (\<forall>m\<in>set ms. Right m < Left m))
   \<and> (\<forall>r vs sims ms. (r = 0 \<or> r < length vecs) \<and> state_after vecs r = Inr (vs, sims, ms)
          \<longrightarrow> (\<forall>s\<in>set sims. sim_j s < sim_i s))"
  using Cluster_ordered sims_ordered by blast

theorem Cluster_merges_left_above_right_witness:
  "Cluster example_vecs = Inr [\<lparr>Left = 2, Right = 0\<rparr>, \<lparr>Left = 2, Right = 1\<rparr>]
   \<and> Right \<lparr>Left = 2, Right = 0\<rparr> < Left \<lparr>Left = 2, Right = 0\<rparr>
   \<and> Right \<lparr>Left = 2, Right = 1\<rparr> < Left \<lparr>Left = 2, Right = 1\<rparr>
   \<and> state_after example_vecs 0 = Inr (example_vecs, populate example_vecs, [])
   \<and> list_all (\<lambda>s. sim_j s < sim_i s) (populate example_vecs)"
proof -
  have st: "state_after example_vecs 0 = Inr (example_vecs, populate example_vecs, [])"
    by simp
  from Cluster_merges_left_above_right[of example_vecs] example_Cluster
  have "\<forall>m\<in>set [\<lparr>Left = 2, Right = 0\<rparr>, \<lparr>Left = 2, Right = 1\<rparr>]. Right m < Left m"
    by blast
  moreover from Cluster_merges_left_above_right[of example_vecs] st
  have "\<forall>s\<in>set (populate example_vecs). sim_j s < sim_i s"
    by blast
  ultimately show ?thesis
    using example_Cluster st by (simp add: list_all_iff)
qed

subsection \<open>The claims about the term vectors\<close>






text \<open>
  Claim C7. \<^verbatim>\<open>Sim\<close> is 0 when a norm is 0 (\<open>Sim_zero_norm\<close>), and symmetric when the
  terms of the dot product are together below \<open>2^53\<close> (\<open>Sim_commute\<close>), but it can
  exceed 1: for the vector of three tokens, each once, and itself, \<^verbatim>\<open>Dot\<close> is 3, the
  norm \<^verbatim>\<open>math.Sqrt(3)\<close> is \<open>7800463371553962 / 2^52\<close>, the product of the norms rounds
  to \<open>3 - 2^-51\<close>, and the quotient rounds to \<open>1 + 2^-52\<close>. (The excess is one of
  rounding: for vectors of non-negative counts with their norms in sync and the squares of
  their counts below \<open>2^53\<close>, \<^verbatim>\<open>Sim\<close> is between 0 and \<open>1 + 2^-50\<close>,
  \<open>Sim_range_rounded\<close>.)
\<close>

theorem Sim_exceeds_one:
  "Sim (NewVec [''a'', ''b'', ''c'']) (NewVec [''a'', ''b'', ''c'']) = Finite (1 + 1 / 2 ^ 52)"
proof -
  let ?v = "NewVec [''a'', ''b'', ''c'']"
  have s: "sumsq ?v = 3" using sumsq_NewVec[of "[''a'', ''b'', ''c'']"] by simp
  then have L: "Length ?v = Finite (7800463371553962 / 2 ^ 52)"
    using Length_NewVec_exact[of "[''a'', ''b'', ''c'']"] by (simp add: round64_sqrt3)
  have "dotabs ?v ?v < 2 ^ 53" by (simp add: dotabs_self s)
  then have D: "Dot ?v ?v = Finite 3" by (simp add: Dot_exact dotsum_self s)
  have P: "fmul (Length ?v) (Length ?v) = Finite (6755399441055743 / 2 ^ 51)"
    unfolding L fmul.simps round64_square_sqrt3 ..
  have "Sim ?v ?v = fdiv (Dot ?v ?v) (fmul (Length ?v) (Length ?v))"
    by (simp add: Sim_def L)
  also have "\<dots> = fdiv (Finite 3) (Finite (6755399441055743 / 2 ^ 51))"
    by (simp only: D P)
  also have "\<dots> = Finite (round64 (3 / (6755399441055743 / 2 ^ 51)))"
    by simp
  also have "\<dots> = Finite (1 + 1 / 2 ^ 52)"
    by (simp only: round64_quotient_sqrt3)
  finally show ?thesis .
qed

section \<open>Properties of the dendrogram interpreter\<close>

lemma Interpret_step_flagged:
  assumes "Interpret_step totalMerges (cl, fl) m = Inr (cl', fl')"
  shows "\<exists>new. fl' = fl @ new \<and> (\<forall>c\<in>set new. 3 < length c \<and> length c < totalMerges div 2)"
proof -
  let ?l = "cl ! Left m" and ?r = "cl ! Right m"
  let ?new = "if 3 < length ?l \<and> 3 < length ?r then
       (if length ?l < totalMerges div 2 then [?l] else [])
         @ (if length ?r < totalMerges div 2 then [?r] else [])
     else []"
  from assms have "fl' = fl @ ?new"
    by (simp add: Interpret_step_def Let_def split: if_splits)
  moreover have "\<forall>c\<in>set ?new. 3 < length c \<and> length c < totalMerges div 2"
    by (simp, blast)
  ultimately show ?thesis by blast
qed

lemma Interpret_loop_flagged:
  "Interpret_loop totalMerges ms (cl, fl) = Inr fl' \<Longrightarrow>
   \<exists>new. fl' = fl @ new \<and> (\<forall>c\<in>set new. 3 < length c \<and> length c < totalMerges div 2)"
proof (induction ms arbitrary: cl fl)
  case Nil
  then show ?case by simp
next
  case (Cons m ms)
  from Cons.prems obtain cl1 fl1 where
    step: "Interpret_step totalMerges (cl, fl) m = Inr (cl1, fl1)"
    and rest: "Interpret_loop totalMerges ms (cl1, fl1) = Inr fl'"
    by (auto split: sum.splits)
  from Interpret_step_flagged[OF step] obtain new1 where
    n1: "fl1 = fl @ new1" "\<forall>c\<in>set new1. 3 < length c \<and> length c < totalMerges div 2"
    by blast
  from Cons.IH[OF rest] obtain new2 where
    n2: "fl' = fl1 @ new2" "\<forall>c\<in>set new2. 3 < length c \<and> length c < totalMerges div 2"
    by blast
  from n1 n2 have "fl' = fl @ (new1 @ new2)"
    and "\<forall>c\<in>set (new1 @ new2). 3 < length c \<and> length c < totalMerges div 2"
    by auto
  then show ?case by blast
qed

lemma Interpret_loop_small:
  assumes "totalMerges div 2 \<le> 4" and "Interpret_loop totalMerges ms (cl, fl) = Inr fl'"
  shows "fl' = fl"
proof -
  from Interpret_loop_flagged[OF assms(2)] obtain new where
    new: "fl' = fl @ new" "\<forall>c\<in>set new. 3 < length c \<and> length c < totalMerges div 2"
    by blast
  have "new = []"
  proof (cases new)
    case (Cons c cs)
    with new(2) have "3 < length c" "length c < totalMerges div 2" by simp_all
    with assms(1) show ?thesis by linarith
  qed simp
  with new(1) show ?thesis by simp
qed

lemma Interpret_loop_bound:
  assumes "Interpret_loop totalMerges ms (cl, []) = Inr fl'"
  shows "\<forall>c\<in>set fl'. 3 < length c \<and> length c < totalMerges div 2"
  using Interpret_loop_flagged[OF assms] by auto

text \<open>After \<open>k\<close> merges the array \<^verbatim>\<open>clusters\<close> holds the member lists of the specification.\<close>

lemma members_step:
  "Left m < N \<Longrightarrow> m = ms ! k \<Longrightarrow>
   (map (members ms k) [0..<N])[Left m := members ms k (Left m) @ members ms k (Right m)]
     = map (members ms (Suc k)) [0..<N]"
  by (rule nth_equalityI) (auto simp: nth_list_update)

lemma members_0: "members ms 0 = (\<lambda>i. [i])"
  by (rule ext) simp

lemma Interpret_loop_refines:
  "k \<le> length ms \<Longrightarrow> well_indexed ms \<Longrightarrow>
   Interpret_loop (length ms) (drop k ms) (map (members ms k) [0..<length ms + 1], fl)
     = Inr (fl @ concat (map (spec_flagged ms) [k..<length ms]))"
proof (induction "length ms - k" arbitrary: k fl)
  case 0
  then show ?case by simp
next
  case (Suc d)
  then have k: "k < length ms" by simp
  then have drop: "drop k ms = ms ! k # drop (Suc k) ms"
    by (simp add: Cons_nth_drop_Suc)
  have upt: "[k..<length ms] = k # [Suc k..<length ms]"
    using k by (simp add: upt_conv_Cons)
  from Suc.prems(2) k have rng: "Left (ms ! k) < length ms + 1" "Right (ms ! k) < length ms + 1"
    by (simp_all add: well_indexed_def list_all_length)
  have step: "Interpret_step (length ms) (map (members ms k) [0..<length ms + 1], fl) (ms ! k)
     = Inr (map (members ms (Suc k)) [0..<length ms + 1], fl @ spec_flagged ms k)"
    using rng members_step[of "ms ! k" "length ms + 1" ms k]
    by (simp add: Interpret_step_def spec_flagged_def Let_def del: members.simps upt_Suc)
  have "d = length ms - Suc k" using Suc.hyps(2) by simp
  from Suc.hyps(1)[OF this _ Suc.prems(2), of "fl @ spec_flagged ms k"] k
  have "Interpret_loop (length ms) (drop (Suc k) ms)
          (map (members ms (Suc k)) [0..<length ms + 1], fl @ spec_flagged ms k)
        = Inr ((fl @ spec_flagged ms k) @ concat (map (spec_flagged ms) [Suc k..<length ms]))"
    by simp
  then show ?case
    unfolding drop upt Interpret_loop.simps step by simp
qed

lemma Interpret_refines:
  "well_indexed ms \<Longrightarrow> Interpret ms = Inr (concat (map (spec_flagged ms) [0..<length ms]))"
  using Interpret_loop_refines[of 0 ms "[]"] by (simp add: Interpret_def members_0 del: upt_Suc)

lemma Interpret_short:
  assumes "length ms \<le> 9" and "well_indexed ms"
  shows "Interpret ms = Inr []"
proof -
  from assms(2) obtain fl where fl: "Interpret ms = Inr fl"
    by (simp add: Interpret_refines)
  moreover from assms(1) have "length ms div 2 \<le> 4" by simp
  ultimately have "fl = []"
    unfolding Interpret_def by (rule Interpret_loop_small[rotated])
  with fl show ?thesis by simp
qed

text \<open>
  Claim C3. \<^verbatim>\<open>Interpret\<close> walks the merges in order and, at each one, flags what the
  specification says (\<open>spec_flagged\<close>: both sides larger than 3, the side smaller than
  \<^verbatim>\<open>len(merges)/2\<close>, left before right). Every flagged list has more than 3 members and
  fewer than \<^verbatim>\<open>len(merges)/2\<close>, so it never holds all \<^verbatim>\<open>len(merges)+1\<close> indices: the
  terminal cluster is not flagged. The empty sequence gives the empty flagged list.
\<close>

theorem Interpret_flags_as_specified:
  "(well_indexed ms \<longrightarrow>
      Interpret ms = Inr (concat (map (spec_flagged ms) [0..<length ms])))
   \<and> (\<forall>fl. Interpret ms = Inr fl \<longrightarrow>
         (\<forall>c\<in>set fl. 3 < length c \<and> length c < length ms div 2
             \<and> \<not> {0..<length ms + 1} \<subseteq> set c))
   \<and> Interpret [] = Inr []"
proof (intro conjI allI impI ballI)
  assume "well_indexed ms"
  then show "Interpret ms = Inr (concat (map (spec_flagged ms) [0..<length ms]))"
    by (rule Interpret_refines)
next
  fix fl c
  assume run: "Interpret ms = Inr fl" and c: "c \<in> set fl"
  from run have "\<forall>c\<in>set fl. 3 < length c \<and> length c < length ms div 2"
    unfolding Interpret_def by (rule Interpret_loop_bound)
  with c show "3 < length c" and small: "length c < length ms div 2" by simp_all
  show "\<not> {0..<length ms + 1} \<subseteq> set c"
  proof
    assume "{0..<length ms + 1} \<subseteq> set c"
    then have "card {0..<length ms + 1} \<le> card (set c)"
      by (intro card_mono) simp_all
    also have "\<dots> \<le> length c" by (rule card_length)
    finally show False using small by simp
  qed
next
  show "Interpret [] = Inr []" by (simp add: Interpret_def)
qed

text \<open>
  The witness: two clusters of four members each are built and then merged, in a
  sequence of ten merges; both are flagged, the left one first.
\<close>

theorem Interpret_flags_as_specified_witness:
  "well_indexed
     [\<lparr>Left = 1, Right = 0\<rparr>, \<lparr>Left = 2, Right = 1\<rparr>, \<lparr>Left = 3, Right = 2\<rparr>,
      \<lparr>Left = 5, Right = 4\<rparr>, \<lparr>Left = 6, Right = 5\<rparr>, \<lparr>Left = 7, Right = 6\<rparr>,
      \<lparr>Left = 7, Right = 3\<rparr>, \<lparr>Left = 8, Right = 7\<rparr>, \<lparr>Left = 9, Right = 8\<rparr>,
      \<lparr>Left = 10, Right = 9\<rparr>]
   \<and> Interpret
     [\<lparr>Left = 1, Right = 0\<rparr>, \<lparr>Left = 2, Right = 1\<rparr>, \<lparr>Left = 3, Right = 2\<rparr>,
      \<lparr>Left = 5, Right = 4\<rparr>, \<lparr>Left = 6, Right = 5\<rparr>, \<lparr>Left = 7, Right = 6\<rparr>,
      \<lparr>Left = 7, Right = 3\<rparr>, \<lparr>Left = 8, Right = 7\<rparr>, \<lparr>Left = 9, Right = 8\<rparr>,
      \<lparr>Left = 10, Right = 9\<rparr>] = Inr [[7, 6, 5, 4], [3, 2, 1, 0]]"
  (is "well_indexed ?ms \<and> _")
proof -
  have wi: "well_indexed ?ms" by code_simp
  have "concat (map (spec_flagged ?ms) [0..<length ?ms]) = [[7, 6, 5, 4], [3, 2, 1, 0]]"
    by code_simp
  with wi Interpret_flags_as_specified[of ?ms] show ?thesis by simp
qed

text \<open>
  Claim C10. A merge sequence of at most 9 merges has \<^verbatim>\<open>len(merges)/2 \<le> 4\<close>, and no
  size is above 3 and below 4: \<^verbatim>\<open>Interpret\<close> returns the empty flagged list (on a
  sequence whose indices are within its \<^verbatim>\<open>len(merges)+1\<close> clusters; on another it
  panics). So it does on what \<^verbatim>\<open>Cluster\<close> returns for fewer than 11 vectors.
\<close>

theorem Interpret_flags_nothing_below_eleven:
  "(length ms \<le> 9 \<longrightarrow>
      (well_indexed ms \<longrightarrow> Interpret ms = Inr [])
      \<and> (\<forall>fl. Interpret ms = Inr fl \<longrightarrow> fl = []))
   \<and> (length vecs < 11 \<and> Cluster vecs = Inr ms' \<longrightarrow> Interpret ms' = Inr [])"
proof (intro conjI impI allI)
  assume "length ms \<le> 9" "well_indexed ms"
  then show "Interpret ms = Inr []" by (rule Interpret_short)
next
  fix fl assume len: "length ms \<le> 9" and run: "Interpret ms = Inr fl"
  from len have "length ms div 2 \<le> 4" by simp
  then show "fl = []"
    using run unfolding Interpret_def by (rule Interpret_loop_small)
next
  assume a: "length vecs < 11 \<and> Cluster vecs = Inr ms'"
  then have run: "Cluster vecs = Inr ms'" by simp
  from Cluster_complete[OF Cluster_Inr_nonempty[OF run]] run a have "length ms' \<le> 9" by auto
  then show "Interpret ms' = Inr []"
    using Cluster_well_indexed[OF run] by (rule Interpret_short)
qed

theorem Interpret_flags_nothing_below_eleven_witness:
  "length [\<lparr>Left = 1, Right = 0\<rparr>, \<lparr>Left = 2, Right = 1\<rparr>, \<lparr>Left = 3, Right = 2\<rparr>,
           \<lparr>Left = 4, Right = 3\<rparr>, \<lparr>Left = 8, Right = 7\<rparr>, \<lparr>Left = 8, Right = 6\<rparr>,
           \<lparr>Left = 8, Right = 5\<rparr>, \<lparr>Left = 9, Right = 8\<rparr>, \<lparr>Left = 9, Right = 4\<rparr>] \<le> 9
   \<and> well_indexed
          [\<lparr>Left = 1, Right = 0\<rparr>, \<lparr>Left = 2, Right = 1\<rparr>, \<lparr>Left = 3, Right = 2\<rparr>,
           \<lparr>Left = 4, Right = 3\<rparr>, \<lparr>Left = 8, Right = 7\<rparr>, \<lparr>Left = 8, Right = 6\<rparr>,
           \<lparr>Left = 8, Right = 5\<rparr>, \<lparr>Left = 9, Right = 8\<rparr>, \<lparr>Left = 9, Right = 4\<rparr>]
   \<and> Interpret
          [\<lparr>Left = 1, Right = 0\<rparr>, \<lparr>Left = 2, Right = 1\<rparr>, \<lparr>Left = 3, Right = 2\<rparr>,
           \<lparr>Left = 4, Right = 3\<rparr>, \<lparr>Left = 8, Right = 7\<rparr>, \<lparr>Left = 8, Right = 6\<rparr>,
           \<lparr>Left = 8, Right = 5\<rparr>, \<lparr>Left = 9, Right = 8\<rparr>, \<lparr>Left = 9, Right = 4\<rparr>] = Inr []
   \<and> length example_vecs < 11
   \<and> Cluster example_vecs = Inr [\<lparr>Left = 2, Right = 0\<rparr>, \<lparr>Left = 2, Right = 1\<rparr>]
   \<and> Interpret [\<lparr>Left = 2, Right = 0\<rparr>, \<lparr>Left = 2, Right = 1\<rparr>] = Inr []"
  (is "length ?ms \<le> 9 \<and> well_indexed ?ms \<and> Interpret ?ms = Inr [] \<and> _")
proof -
  have len: "length ?ms \<le> 9" by simp
  have wi: "well_indexed ?ms" by code_simp
  have 1: "Interpret ?ms = Inr []"
    using Interpret_flags_nothing_below_eleven[of ?ms example_vecs
        "[\<lparr>Left = 2, Right = 0\<rparr>, \<lparr>Left = 2, Right = 1\<rparr>]"] len wi
    by blast
  have l3: "length example_vecs < 11" by (simp add: example_vecs_def)
  have 2: "Interpret [\<lparr>Left = 2, Right = 0\<rparr>, \<lparr>Left = 2, Right = 1\<rparr>] = Inr []"
    using Interpret_flags_nothing_below_eleven[of ?ms example_vecs
        "[\<lparr>Left = 2, Right = 0\<rparr>, \<lparr>Left = 2, Right = 1\<rparr>]"] l3 example_Cluster
    by blast
  from len wi 1 l3 example_Cluster 2 show ?thesis by blast
qed

end
